theory Spec2Isabelle
  imports Main "HOL-Library.Sublist"
begin

section \<open>JavaScript values and the fragment of the language the generator uses\<close>

text \<open>
  The program (\<^verbatim>\<open>src/main.js\<close>) reads an index manifest and quiz files, all JSON, and
  writes HTML pages. Every value it inspects comes out of \<^verbatim>\<open>JSON.parse\<close>, so a value is
  a JSON tree. A number is held as the text JavaScript prints for it (\<^verbatim>\<open>String(n)\<close>): the
  program only interpolates numbers into templates and tests them for truthiness, and
  both are functions of that text (\<^verbatim>\<open>0\<close> and \<^verbatim>\<open>-0\<close> both print as \<^verbatim>\<open>0\<close>, and JSON has
  no NaN). An object is the list of its own properties, looked up by key. The value
  \<^verbatim>\<open>undefined\<close>, which JSON does not have but a property read can give, is \<open>None\<close> of
  \<open>json option\<close>.
\<close>

datatype json =
    JNull
  | JBool bool
  | JNum string
  | JStr string
  | JArr "json list"
  | JObj "(string \<times> json) list"

text \<open>What the program can throw: a \<^verbatim>\<open>TypeError\<close> from the language, a \<^verbatim>\<open>SyntaxError\<close>
  from \<^verbatim>\<open>JSON.parse\<close>, and a rejected file-system call.\<close>

datatype exn = TypeError | SyntaxError | SystemError

definition bindR :: "exn + 'a \<Rightarrow> ('a \<Rightarrow> exn + 'b) \<Rightarrow> exn + 'b" where
  "bindR m f = (case m of Inl e \<Rightarrow> Inl e | Inr v \<Rightarrow> f v)"

text \<open>\<^verbatim>\<open>a && b\<close> and \<^verbatim>\<open>a || b\<close> on booleans: the right operand is evaluated, and can throw,
  only when the left one does not decide.\<close>

definition andR :: "exn + bool \<Rightarrow> exn + bool \<Rightarrow> exn + bool" where
  "andR a b = bindR a (\<lambda>x. if x then b else Inr False)"

definition orR :: "exn + bool \<Rightarrow> exn + bool \<Rightarrow> exn + bool" where
  "orR a b = bindR a (\<lambda>x. if x then Inr True else b)"

fun sequenceR :: "(exn + 'a) list \<Rightarrow> exn + 'a list" where
  "sequenceR [] = Inr []"
| "sequenceR (m # ms) = bindR m (\<lambda>v. bindR (sequenceR ms) (\<lambda>vs. Inr (v # vs)))"

text \<open>\<^verbatim>\<open>Array.prototype.map\<close> and \<^verbatim>\<open>filter\<close> with a callback that can throw: the first
  throw ends the traversal.\<close>

definition mapR :: "('a \<Rightarrow> exn + 'b) \<Rightarrow> 'a list \<Rightarrow> exn + 'b list" where
  "mapR f xs = sequenceR (map f xs)"

fun filterR :: "('a \<Rightarrow> exn + bool) \<Rightarrow> 'a list \<Rightarrow> exn + 'a list" where
  "filterR p [] = Inr []"
| "filterR p (x # xs) =
     bindR (p x) (\<lambda>keep. bindR (filterR p xs) (\<lambda>ys. Inr (if keep then x # ys else ys)))"

text \<open>\<^verbatim>\<open>typeof v\<close>.\<close>

fun typeof :: "json option \<Rightarrow> string" where
  "typeof None = ''undefined''"
| "typeof (Some JNull) = ''object''"
| "typeof (Some (JBool b)) = ''boolean''"
| "typeof (Some (JNum n)) = ''number''"
| "typeof (Some (JStr s)) = ''string''"
| "typeof (Some (JArr xs)) = ''object''"
| "typeof (Some (JObj kv)) = ''object''"

text \<open>\<^verbatim>\<open>Array.isArray(v)\<close>.\<close>

fun isArray :: "json option \<Rightarrow> bool" where
  "isArray (Some (JArr xs)) = True"
| "isArray v = False"

text \<open>Truthiness (\<^verbatim>\<open>!v\<close>, \<^verbatim>\<open>v ? a : b\<close>): \<^verbatim>\<open>undefined\<close>, \<^verbatim>\<open>null\<close>, \<^verbatim>\<open>false\<close>, zero and the
  empty string are falsy.\<close>

fun truthy :: "json option \<Rightarrow> bool" where
  "truthy None = False"
| "truthy (Some JNull) = False"
| "truthy (Some (JBool b)) = b"
| "truthy (Some (JNum n)) = (n \<noteq> ''0'')"
| "truthy (Some (JStr s)) = (s \<noteq> '''')"
| "truthy (Some (JArr xs)) = True"
| "truthy (Some (JObj kv)) = True"

text \<open>
  A property read \<^verbatim>\<open>v.k\<close>. On \<^verbatim>\<open>null\<close> it throws. The program reads only the names
  \<^verbatim>\<open>file\<close>, \<^verbatim>\<open>title\<close>, \<^verbatim>\<open>questions\<close>, \<^verbatim>\<open>question\<close>, \<^verbatim>\<open>answers\<close>, \<^verbatim>\<open>answer\<close> and
  \<^verbatim>\<open>correct\<close> this way; none of them is inherited from a prototype, so an object gives
  its own property and every other value gives \<^verbatim>\<open>undefined\<close>.
\<close>

fun getProp :: "json \<Rightarrow> string \<Rightarrow> exn + json option" where
  "getProp JNull k = Inl TypeError"
| "getProp (JObj kv) k = Inr (map_of kv k)"
| "getProp v k = Inr None"

text \<open>\<^verbatim>\<open>k in v\<close>, used with \<^verbatim>\<open>title\<close> and \<^verbatim>\<open>questions\<close>: it throws unless \<open>v\<close> is an
  object or an array.\<close>

fun hasProp :: "string \<Rightarrow> json \<Rightarrow> exn + bool" where
  "hasProp k (JObj kv) = Inr (k \<in> set (map fst kv))"
| "hasProp k (JArr xs) = Inr False"
| "hasProp k v = Inl TypeError"

text \<open>\<^verbatim>\<open>Array.prototype.join(sep)\<close> on strings.\<close>

fun join :: "string \<Rightarrow> string list \<Rightarrow> string" where
  "join sep [] = ''''"
| "join sep [s] = s"
| "join sep (s # t # ss) = s @ sep @ join sep (t # ss)"

text \<open>
  The conversion to a string that a template literal and \<^verbatim>\<open>+\<close> with a string apply.
  An array joins its elements with commas, printing \<^verbatim>\<open>null\<close> elements as nothing. An
  object prints as \<^verbatim>\<open>[object Object]\<close> through the inherited \<^verbatim>\<open>toString\<close>; an own property
  named \<^verbatim>\<open>toString\<close> shadows it with a value that cannot be called, and the conversion
  throws.
\<close>

fun toStringJ :: "json \<Rightarrow> exn + string" where
  "toStringJ JNull = Inr ''null''"
| "toStringJ (JBool b) = Inr (if b then ''true'' else ''false'')"
| "toStringJ (JNum n) = Inr n"
| "toStringJ (JStr s) = Inr s"
| "toStringJ (JArr xs) =
     bindR (sequenceR (map (\<lambda>x. if x = JNull then Inr '''' else toStringJ x) xs))
       (\<lambda>ss. Inr (join '','' ss))"
| "toStringJ (JObj kv) =
     (if ''toString'' \<in> set (map fst kv) then Inl TypeError else Inr ''[object Object]'')"

definition toStr :: "json option \<Rightarrow> exn + string" where
  "toStr v = (case v of None \<Rightarrow> Inr ''undefined'' | Some j \<Rightarrow> toStringJ j)"

text \<open>\<^verbatim>\<open>s.endsWith(t)\<close> and \<^verbatim>\<open>s.replace(pat, rep)\<close> with a string pattern, which replaces
  the first occurrence of \<open>pat\<close> only. Both patterns of the program are ASCII, so bytes
  and UTF-16 units find the same occurrences.\<close>

definition endsWith :: "string \<Rightarrow> string \<Rightarrow> bool" where
  "endsWith s t = (length t \<le> length s \<and> drop (length s - length t) s = t)"

fun replace :: "string \<Rightarrow> string \<Rightarrow> string \<Rightarrow> string" where
  "replace pat rep [] = (if pat = [] then rep else [])"
| "replace pat rep (c # cs) =
     (if take (length pat) (c # cs) = pat then rep @ drop (length pat) (c # cs)
      else c # replace pat rep cs)"

section \<open>The Node runtime and the file system\<close>

text \<open>
  \<^verbatim>\<open>JSON.parse\<close> and \<^verbatim>\<open>path.resolve\<close> belong to the runtime, not to the program: they are
  parameters. The file system is keyed by resolved path; a relative path handed to
  \<^verbatim>\<open>fs\<close> directly is resolved by the operating system against the working directory, as
  \<^verbatim>\<open>path.resolve\<close> does.

  In a world, \<open>files\<close> gives the text of the file that can be read at a path, and
  \<open>access_ok\<close> says whether \<^verbatim>\<open>fs.access\<close> finds the path. Whether \<^verbatim>\<open>mkdir\<close> and \<^verbatim>\<open>writeFile\<close>
  succeed at a path is the operating system's verdict, \<open>mkdir_ok\<close> and \<open>write_ok\<close>, the
  same throughout a run. A successful \<^verbatim>\<open>writeFile\<close> stores the text and makes the path one
  that \<^verbatim>\<open>access\<close> finds; a successful \<^verbatim>\<open>mkdir\<close> does the latter. \<open>written\<close> lists the
  successful \<^verbatim>\<open>writeFile\<close> calls in order, each with its resolved path and its text.
  What the program prints to the console is not part of the state; the interpolations it
  makes for those messages are modelled where they can throw.
\<close>

record runtime =
  JSON_parse :: "string \<Rightarrow> exn + json"
  path_resolve :: "string \<Rightarrow> string"

record world =
  files :: "string \<rightharpoonup> string"
  access_ok :: "string \<Rightarrow> bool"
  mkdir_ok :: "string \<Rightarrow> bool"
  write_ok :: "string \<Rightarrow> bool"
  written :: "(string \<times> string) list"

definition fs_readFile :: "world \<Rightarrow> string \<Rightarrow> exn + string" where
  "fs_readFile w p = (case files w p of None \<Rightarrow> Inl SystemError | Some s \<Rightarrow> Inr s)"

definition fs_access :: "world \<Rightarrow> string \<Rightarrow> exn + unit" where
  "fs_access w p = (if access_ok w p then Inr () else Inl SystemError)"

definition fs_mkdir :: "runtime \<Rightarrow> world \<Rightarrow> string \<Rightarrow> exn option \<times> world" where
  "fs_mkdir rt w dir =
     (let p = path_resolve rt dir in
      if mkdir_ok w p then (None, w\<lparr>access_ok := (access_ok w)(p := True)\<rparr>)
      else (Some SystemError, w))"

definition fs_writeFile :: "runtime \<Rightarrow> world \<Rightarrow> string \<Rightarrow> string \<Rightarrow> exn option \<times> world" where
  "fs_writeFile rt w file content =
     (let p = path_resolve rt file in
      if write_ok w p
      then (None, w\<lparr>files := (files w)(p \<mapsto> content),
                     access_ok := (access_ok w)(p := True),
                     written := written w @ [(p, content)]\<rparr>)
      else (Some SystemError, w))"

section \<open>The program\<close>

definition INDEX_PATH :: string where "INDEX_PATH = ''./data/index.json''"
definition DATA_PATH :: string where "DATA_PATH = ''./data/''"
definition DIST_PATH :: string where "DIST_PATH = ''./dist''"

text \<open>\<^verbatim>\<open>readJson\<close>: two \<^verbatim>\<open>try\<close> blocks, each returning \<^verbatim>\<open>null\<close> from its \<^verbatim>\<open>catch\<close>.\<close>

definition readJson :: "runtime \<Rightarrow> world \<Rightarrow> string \<Rightarrow> exn + json" where
  "readJson rt w filePath =
     (case fs_readFile w (path_resolve rt filePath) of
        Inl error \<Rightarrow> Inr JNull
      | Inr data \<Rightarrow>
          (case JSON_parse rt data of
             Inl error \<Rightarrow> Inr JNull
           | Inr parsed \<Rightarrow> Inr parsed))"

text \<open>\<^verbatim>\<open>parseIndexJson\<close>: the arrow function handed to \<^verbatim>\<open>filter\<close>, then the function.
  \<^verbatim>\<open>entry.file.endsWith\<close> is a method of strings only; on any other value the call
  throws.\<close>

definition file_endsWith_json :: "json \<Rightarrow> exn + bool" where
  "file_endsWith_json entry =
     bindR (getProp entry ''file'')
       (\<lambda>f. case f of Some (JStr s) \<Rightarrow> Inr (endsWith s ''.json'') | _ \<Rightarrow> Inl TypeError)"

definition index_entry_ok :: "json \<Rightarrow> exn + bool" where
  "index_entry_ok entry =
     andR (Inr (typeof (Some entry) = ''object''))
    (andR (Inr (entry \<noteq> JNull))
    (andR (bindR (getProp entry ''file'') (\<lambda>f. Inr (typeof f = ''string'')))
    (andR (bindR (getProp entry ''title'') (\<lambda>t. Inr (typeof t = ''string'')))
          (file_endsWith_json entry))))"

definition parseIndexJson :: "json \<Rightarrow> exn + json list option" where
  "parseIndexJson data =
     (if \<not> isArray (Some data) then Inr None
      else case data of JArr entries \<Rightarrow>
             bindR (filterR index_entry_ok entries) (\<lambda>validFiles. Inr (Some validFiles))
           | _ \<Rightarrow> Inr None)"

text \<open>\<^verbatim>\<open>writeHtml\<close>: the loop appends one list item per entry to \<open>html\<close>; the page goes
  to \<^verbatim>\<open>dist/index.html\<close>. \<^verbatim>\<open>replace\<close> is a method of strings only. Nothing is caught
  here.\<close>

definition replace_json_html :: "json option \<Rightarrow> exn + string" where
  "replace_json_html f =
     (case f of Some (JStr s) \<Rightarrow> Inr (replace ''.json'' ''.html'' s) | _ \<Rightarrow> Inl TypeError)"

definition index_item :: "string \<Rightarrow> string \<Rightarrow> string" where
  \<open>index_item href title = ''<li><a href="'' @ href @ ''">'' @ title @ ''</a></li>\<newline>''\<close>

definition index_link :: "json \<Rightarrow> exn + string" where
  "index_link item =
     bindR (getProp item ''file'') (\<lambda>f.
     bindR (replace_json_html f) (\<lambda>href.
     bindR (getProp item ''title'') (\<lambda>t.
     bindR (toStr t) (\<lambda>title.
       Inr (index_item href title)))))"

fun index_links :: "string \<Rightarrow> json list \<Rightarrow> exn + string" where
  "index_links html [] = Inr html"
| "index_links html (item # data) =
     bindR (index_link item) (\<lambda>li. index_links (html @ li) data)"

definition indexHtmlContent :: "string \<Rightarrow> string" where
  \<open>indexHtmlContent html =
''
    <!DOCTYPE html>
    <html lang="en">
        <head>
            <meta charset="UTF-8">
            <meta name="viewport" content="width=device-width, initial-scale=1.0">
            <meta http-equiv="X-UA-Compatible" content="ie=edge">
            <link rel="stylesheet" href="styles.css">
            <title>Verkefni 1</title>
        </head>
        <body>
            <header>Verkefni 1 - Quiz Navigation</header>
            <main>
                <nav>
                    <a href="index.html">Home</a>
                </nav>
                <ul>
                    '' @ html @
''
                </ul>
            </main>
            <script src="script.js"></script>
        </body>
    </html>
    ''\<close>

definition writeHtml :: "runtime \<Rightarrow> world \<Rightarrow> json list \<Rightarrow> exn option \<times> world" where
  "writeHtml rt w data =
     (case index_links '''' data of
        Inl e \<Rightarrow> (Some e, w)
      | Inr html \<Rightarrow> fs_writeFile rt w ''dist/index.html'' (indexHtmlContent html))"

text \<open>\<^verbatim>\<open>isValidJsonFile\<close>. The \<^verbatim>\<open>try\<close> block returns a boolean or throws; the \<^verbatim>\<open>catch\<close>
  turns a throw into \<^verbatim>\<open>false\<close>, after interpolating \<open>filePath\<close> into its warning.\<close>

definition isValidJsonFile_try :: "runtime \<Rightarrow> world \<Rightarrow> json option \<Rightarrow> exn + bool" where
  "isValidJsonFile_try rt w filePath =
     bindR (toStr filePath) (\<lambda>fp.
     bindR (fs_access w (path_resolve rt (DATA_PATH @ fp))) (\<lambda>_.
     bindR (readJson rt w (DATA_PATH @ fp)) (\<lambda>fileContent.
     bindR (orR (Inr (typeof (Some fileContent) \<noteq> ''object''))
           (orR (Inr (fileContent = JNull))
           (orR (bindR (hasProp ''questions'' fileContent) (\<lambda>h. Inr (\<not> h)))
                (bindR (getProp fileContent ''questions'') (\<lambda>q. Inr (q = Some JNull))))))
       (\<lambda>corrupt. if corrupt then Inr False else Inr True))))"

definition isValidJsonFile :: "runtime \<Rightarrow> world \<Rightarrow> json option \<Rightarrow> exn + bool" where
  "isValidJsonFile rt w filePath =
     (case isValidJsonFile_try rt w filePath of
        Inr b \<Rightarrow> Inr b
      | Inl error \<Rightarrow> bindR (toStr filePath) (\<lambda>_. Inr False))"

text \<open>\<^verbatim>\<open>generateAllHtml\<close>: the two templates, inner first.\<close>

definition answer_item :: "bool \<Rightarrow> string \<Rightarrow> string" where
  \<open>answer_item correct text =
     ''
                            <li'' @ (if correct then '' class="correct-answer"'' else '''') @ ''>
                                '' @ text @ ''
                            </li>''\<close>

definition answer_html :: "json \<Rightarrow> exn + string" where
  "answer_html answer =
     bindR (getProp answer ''correct'') (\<lambda>correct.
     bindR (getProp answer ''answer'') (\<lambda>a.
     bindR (toStr a) (\<lambda>text.
       Inr (answer_item (truthy correct) text))))"

definition question_card :: "string \<Rightarrow> string \<Rightarrow> string" where
  \<open>question_card heading items =
     ''
                <div class="card">
                    <h2>'' @ heading @ ''</h2>
                    <ul>
                        '' @ items @ ''
                    </ul>
                </div>
            ''\<close>

definition question_html :: "json \<Rightarrow> exn + string" where
  "question_html q =
     bindR (getProp q ''question'') (\<lambda>question.
     bindR (toStr question) (\<lambda>heading.
     bindR (getProp q ''answers'') (\<lambda>answers.
       case answers of
         Some (JArr as) \<Rightarrow>
           bindR (mapR answer_html as) (\<lambda>items.
             Inr (question_card heading (join ''\<newline>'' items)))
       | _ \<Rightarrow> Inl TypeError)))"

definition has_array_answers :: "json \<Rightarrow> exn + bool" where
  "has_array_answers q = bindR (getProp q ''answers'') (\<lambda>answers. Inr (isArray answers))"

definition questionsHtml :: "json list \<Rightarrow> exn + string" where
  "questionsHtml questions =
     bindR (filterR has_array_answers questions) (\<lambda>validQuestions.
     bindR (mapR question_html validQuestions) (\<lambda>cards.
       Inr (join ''\<newline>'' cards)))"

definition htmlContent :: "string \<Rightarrow> string \<Rightarrow> string" where
  \<open>htmlContent title qsHtml =
''
            <!DOCTYPE html>
            <html lang="en">
                <head>
                    <meta charset="UTF-8">
                    <meta name="viewport" content="width=device-width, initial-scale=1.0">
                    <link rel="stylesheet" href="styles.css">
                    <title>'' @ title @ ''</title>
                </head>
                <body>
                    <header><a href="./index.html">'' @ title @ ''</a></header>
                    <main>
                        '' @ qsHtml @ ''
                    </main>
                    <script src="script.js"></script>
                </body>
            </html>''\<close>

text \<open>The checks and the rendering one document goes through between being read and
  being written: \<open>None\<close> is \<^verbatim>\<open>continue\<close> (the document is skipped), \<open>Some page\<close> the text
  of \<open>htmlContent\<close>. The template reads \<open>title\<close> after \<open>questionsHtml\<close> is built.\<close>

definition quizPage :: "json \<Rightarrow> exn + string option" where
  "quizPage fileContent =
     bindR (orR (Inr (\<not> truthy (Some fileContent)))
           (orR (Inr (typeof (Some fileContent) \<noteq> ''object''))
           (orR (bindR (hasProp ''title'' fileContent) (\<lambda>h. Inr (\<not> h)))
                (bindR (hasProp ''questions'' fileContent) (\<lambda>h. Inr (\<not> h))))))
       (\<lambda>invalid. if invalid then Inr None else
     bindR (getProp fileContent ''title'') (\<lambda>title.
     bindR (getProp fileContent ''questions'') (\<lambda>questions.
       if \<not> truthy title \<or> \<not> isArray questions then Inr None else
     bindR (case questions of Some (JArr qs) \<Rightarrow> questionsHtml qs | _ \<Rightarrow> Inl TypeError)
       (\<lambda>qsHtml.
     bindR (toStr title) (\<lambda>t. Inr (Some (htmlContent t qsHtml)))))))"

text \<open>The body of the \<^verbatim>\<open>try\<close> block for one entry. \<^verbatim>\<open>continue\<close> and reaching the end both
  go on to the next entry, so both are \<open>None\<close>; \<open>Some e\<close> is a throw, which the
  \<^verbatim>\<open>catch\<close> receives.\<close>

definition generateAllHtml_try :: "runtime \<Rightarrow> world \<Rightarrow> json \<Rightarrow> exn option \<times> world" where
  "generateAllHtml_try rt w entry =
     (case bindR (getProp entry ''file'') toStr of
        Inl e \<Rightarrow> (Some e, w)
      | Inr file \<Rightarrow>
     (case bindR (readJson rt w (DATA_PATH @ file)) quizPage of
        Inl e \<Rightarrow> (Some e, w)
      | Inr None \<Rightarrow> (None, w)
      | Inr (Some content) \<Rightarrow>
     (case fs_mkdir rt w ''dist'' of
        (Some e, w1) \<Rightarrow> (Some e, w1)
      | (None, w1) \<Rightarrow>
     (case bindR (getProp entry ''file'') replace_json_html of
        Inl e \<Rightarrow> (Some e, w1)
      | Inr name \<Rightarrow> fs_writeFile rt w1 (''dist/'' @ name) content))))"

text \<open>One turn of the loop: the \<^verbatim>\<open>catch\<close> logs the entry's file and goes on; only a throw
  while building that message leaves the loop.\<close>

definition generateAllHtml_entry :: "runtime \<Rightarrow> world \<Rightarrow> json \<Rightarrow> exn option \<times> world" where
  "generateAllHtml_entry rt w entry =
     (case generateAllHtml_try rt w entry of
        (None, w1) \<Rightarrow> (None, w1)
      | (Some error, w1) \<Rightarrow>
          (case bindR (getProp entry ''file'') toStr of
             Inl e \<Rightarrow> (Some e, w1)
           | Inr _ \<Rightarrow> (None, w1)))"

fun generateAllHtml :: "runtime \<Rightarrow> world \<Rightarrow> json list \<Rightarrow> exn option \<times> world" where
  "generateAllHtml rt w [] = (None, w)"
| "generateAllHtml rt w (entry # validFiles) =
     (case generateAllHtml_entry rt w entry of
        (Some e, w1) \<Rightarrow> (Some e, w1)
      | (None, w1) \<Rightarrow> generateAllHtml rt w1 validFiles)"

text \<open>The two asset files. \<^verbatim>\<open>path.join(DIST_PATH, name)\<close> normalises \<^verbatim>\<open>./dist\<close> to
  \<^verbatim>\<open>dist\<close>. Each function catches whatever \<^verbatim>\<open>mkdir\<close> or \<^verbatim>\<open>writeFile\<close> throws.\<close>

definition cssFilePath :: string where "cssFilePath = ''dist/styles.css''"
definition jsFilePath :: string where "jsFilePath = ''dist/script.js''"

definition cssContent :: string where
  \<open>cssContent =
''
        body {
            font-family: 'Roboto', Arial, sans-serif;
            background-color: #f9f9f9;
            color: #333;
            margin: 0;
            padding: 20px;
        }

        header {
            background-color: #4caf50;
            padding: 20px;
            color: white;
            text-align: center;
            font-size: 1.8em;
        }

        main {
            max-width: 900px;
            margin: 20px auto;
            padding: 20px;
        }

        ul {
            list-style: none;
            padding: 0;
        }

        .card {
            background-color: #ffffff;
            box-shadow: 0 2px 8px rgba(0, 0, 0, 0.1);
            padding: 20px;
            border-radius: 8px;
            transition: transform 0.3s ease;
        }

        .card:hover {
            transform: translateY(-5px);
        }

        .card h2 {
            color: #4caf50;
        }

        .correct-answer {
            color: #2e7d32;
            font-weight: bold;
        }
        ''\<close>

definition jsContent :: string where
  \<open>jsContent =
''
        document.addEventListener("DOMContentLoaded", function () {
            const navBar = document.createElement("nav");
            navBar.innerHTML = '<a href="index.html">Home</a>';
            document.body.prepend(navBar);
        });
        ''\<close>

definition generateCssFile :: "runtime \<Rightarrow> world \<Rightarrow> world" where
  "generateCssFile rt w =
     (case fs_mkdir rt w DIST_PATH of
        (Some error, w1) \<Rightarrow> w1
      | (None, w1) \<Rightarrow> snd (fs_writeFile rt w1 cssFilePath cssContent))"

definition generateJsFile :: "runtime \<Rightarrow> world \<Rightarrow> world" where
  "generateJsFile rt w =
     (case fs_mkdir rt w DIST_PATH of
        (Some error, w1) \<Rightarrow> w1
      | (None, w1) \<Rightarrow> snd (fs_writeFile rt w1 jsFilePath jsContent))"

text \<open>\<^verbatim>\<open>main\<close>. The loop that fills \<open>validFiles\<close> reads \<^verbatim>\<open>entry.file\<close> and keeps the entries
  \<^verbatim>\<open>isValidJsonFile\<close> accepts, in order. A throw that nothing catches ends the run; the
  files written before it stay.\<close>

fun validFiles_loop :: "runtime \<Rightarrow> world \<Rightarrow> json list \<Rightarrow> exn + json list" where
  "validFiles_loop rt w [] = Inr []"
| "validFiles_loop rt w (entry # parsedJson) =
     bindR (getProp entry ''file'') (\<lambda>f.
     bindR (isValidJsonFile rt w f) (\<lambda>ok.
     bindR (validFiles_loop rt w parsedJson) (\<lambda>validFiles.
       Inr (if ok then entry # validFiles else validFiles))))"

definition main :: "runtime \<Rightarrow> world \<Rightarrow> exn option \<times> world" where
  "main rt w =
     (case bindR (readJson rt w INDEX_PATH) parseIndexJson of
        Inl e \<Rightarrow> (Some e, w)
      | Inr parsedJson \<Rightarrow>
          (let w1 = generateCssFile rt w;
               w2 = generateJsFile rt w1
           in case parsedJson of
                None \<Rightarrow> (None, w2)
              | Some entries \<Rightarrow>
                  (case validFiles_loop rt w2 entries of
                     Inl e \<Rightarrow> (Some e, w2)
                   | Inr validFiles \<Rightarrow>
                       (case writeHtml rt w2 validFiles of
                          (Some e, w3) \<Rightarrow> (Some e, w3)
                        | (None, w3) \<Rightarrow> generateAllHtml rt w3 validFiles))))"

section \<open>Notions of the specification\<close>

text \<open>The specification's words for an index entry that survives validation: a non-null
  object with a string \<^verbatim>\<open>file\<close> field ending in \<^verbatim>\<open>.json\<close> and a string \<^verbatim>\<open>title\<close> field.\<close>

definition well_formed_entry :: "json \<Rightarrow> bool" where
  "well_formed_entry entry =
     (case entry of
        JObj kv \<Rightarrow>
          (case (map_of kv ''file'', map_of kv ''title'') of
             (Some (JStr f), Some (JStr t)) \<Rightarrow> suffix ''.json'' f
           | _ \<Rightarrow> False)
      | _ \<Rightarrow> False)"

text \<open>The \<^verbatim>\<open>file\<close> and \<^verbatim>\<open>title\<close> of an entry, when they are strings.\<close>

definition entry_file :: "json \<Rightarrow> string" where
  "entry_file entry = (case getProp entry ''file'' of Inr (Some (JStr f)) \<Rightarrow> f | _ \<Rightarrow> '''')"

definition entry_title :: "json \<Rightarrow> string" where
  "entry_title entry = (case getProp entry ''title'' of Inr (Some (JStr t)) \<Rightarrow> t | _ \<Rightarrow> '''')"

text \<open>The specification's words for the existence and shape check of a quiz file: the file
  exists under the data directory, and what the loader returns for it is an object with a
  \<^verbatim>\<open>questions\<close> field that is not \<^verbatim>\<open>null\<close>.\<close>

definition file_ok :: "runtime \<Rightarrow> world \<Rightarrow> string \<Rightarrow> bool" where
  "file_ok rt w f =
     (access_ok w (path_resolve rt (DATA_PATH @ f)) \<and>
      (case readJson rt w (DATA_PATH @ f) of
         Inr (JObj kv) \<Rightarrow> (case map_of kv ''questions'' of None \<Rightarrow> False | Some q \<Rightarrow> q \<noteq> JNull)
       | _ \<Rightarrow> False))"


text \<open>A question whose \<^verbatim>\<open>answers\<close> field is an array.\<close>

definition answers_is_array :: "json \<Rightarrow> bool" where
  "answers_is_array q = (case getProp q ''answers'' of Inr a \<Rightarrow> isArray a | Inl e \<Rightarrow> False)"

text \<open>The list item of the index page for an entry: a link whose \<^verbatim>\<open>href\<close> is the entry's
  \<^verbatim>\<open>file\<close> after \<^verbatim>\<open>replace(".json", ".html")\<close> and whose text is the entry's \<^verbatim>\<open>title\<close>. Then
  the path of the entry's quiz page.\<close>

definition link_of :: "json \<Rightarrow> string" where
  \<open>link_of entry =
     ''<li><a href="'' @ replace ''.json'' ''.html'' (entry_file entry) @ ''">'' @
     entry_title entry @ ''</a></li>\<newline>''\<close>

definition outputFilePath :: "json \<Rightarrow> string" where
  "outputFilePath entry = ''dist/'' @ replace ''.json'' ''.html'' (entry_file entry)"

text \<open>The entries of a manifest that pass both validators in a given world.\<close>

definition valid_entries :: "runtime \<Rightarrow> world \<Rightarrow> json list \<Rightarrow> json list" where
  "valid_entries rt w entries =
     filter (\<lambda>e. file_ok rt w (entry_file e)) (filter well_formed_entry entries)"

text \<open>The page the renderer produces for an entry's quiz file, if it produces one, and
  whether the entry's turn of the loop writes it: the document is rendered, and \<^verbatim>\<open>mkdir\<close>
  and \<^verbatim>\<open>writeFile\<close> succeed.\<close>

definition page_of :: "runtime \<Rightarrow> world \<Rightarrow> json \<Rightarrow> string option" where
  "page_of rt w entry =
     (case bindR (readJson rt w (DATA_PATH @ entry_file entry)) quizPage of
        Inr (Some content) \<Rightarrow> Some content
      | _ \<Rightarrow> None)"

definition page_ok :: "runtime \<Rightarrow> world \<Rightarrow> json \<Rightarrow> bool" where
  "page_ok rt w entry =
     (page_of rt w entry \<noteq> None \<and> mkdir_ok w (path_resolve rt ''dist'') \<and>
      write_ok w (path_resolve rt (outputFilePath entry)))"

definition page_write :: "runtime \<Rightarrow> world \<Rightarrow> json \<Rightarrow> string \<times> string" where
  "page_write rt w entry =
     (path_resolve rt (outputFilePath entry),
      case page_of rt w entry of Some content \<Rightarrow> content | None \<Rightarrow> '''')"

text \<open>The successful writes of the two asset files.\<close>

definition asset_writes :: "runtime \<Rightarrow> world \<Rightarrow> (string \<times> string) list" where
  "asset_writes rt w =
     (if mkdir_ok w (path_resolve rt DIST_PATH) then
        (if write_ok w (path_resolve rt cssFilePath)
         then [(path_resolve rt cssFilePath, cssContent)] else []) @
        (if write_ok w (path_resolve rt jsFilePath)
         then [(path_resolve rt jsFilePath, jsContent)] else [])
      else [])"

text \<open>The world in which \<^verbatim>\<open>main\<close> runs the validators: the one left by the two asset
  functions. The quiz pages of a run are the writes that follow the assets and the index
  page in the log.\<close>

definition after_assets :: "runtime \<Rightarrow> world \<Rightarrow> world" where
  "after_assets rt w = generateJsFile rt (generateCssFile rt w)"

definition quiz_pages :: "runtime \<Rightarrow> world \<Rightarrow> (string \<times> string) list" where
  "quiz_pages rt w =
     drop (length (written w) + length (asset_writes rt w) + 1) (written (snd (main rt w)))"

text \<open>The output side and the input side do not overlap: no path the program creates or
  writes resolves to the quiz file of a well-formed entry of the manifest.\<close>

definition apart :: "runtime \<Rightarrow> json list \<Rightarrow> bool" where
  "apart rt entries =
     (let wf = filter well_formed_entry entries;
          outs = [DIST_PATH, ''dist'', cssFilePath, jsFilePath, ''dist/index.html'']
                   @ map outputFilePath wf;
          ins = map (\<lambda>e. DATA_PATH @ entry_file e) wf
      in list_all (\<lambda>out. list_all (\<lambda>inp. path_resolve rt out \<noteq> path_resolve rt inp) ins) outs)"

text \<open>A world \<open>w'\<close> that a piece of the program reaches from \<open>w\<close> by touching only the
  paths in \<open>T\<close>: the verdicts on \<^verbatim>\<open>mkdir\<close> and \<^verbatim>\<open>writeFile\<close> stay, the log is extended with
  writes to paths in \<open>T\<close>, and every other path is as it was.\<close>

definition evolves :: "string set \<Rightarrow> world \<Rightarrow> world \<Rightarrow> bool" where
  "evolves T w w' \<longleftrightarrow>
     mkdir_ok w' = mkdir_ok w \<and> write_ok w' = write_ok w \<and>
     (\<exists>ws. written w' = written w @ ws \<and> fst ` set ws \<subseteq> T) \<and>
     (\<forall>p. p \<notin> T \<longrightarrow> files w' p = files w p \<and> access_ok w' p = access_ok w p)"

text \<open>The files a run reads: the manifest, and the quiz file of each well-formed entry of
  the manifest as \<open>w\<close> holds it. The entries that \<^verbatim>\<open>parseIndexJson\<close> drops are never looked
  up, and nothing else on the disk is opened for reading.\<close>

definition manifest_entries :: "runtime \<Rightarrow> world \<Rightarrow> json list" where
  "manifest_entries rt w =
     (case readJson rt w INDEX_PATH of
        Inr (JArr entries) \<Rightarrow> filter well_formed_entry entries
      | _ \<Rightarrow> [])"

definition input_paths :: "runtime \<Rightarrow> world \<Rightarrow> string list" where
  "input_paths rt w =
     path_resolve rt INDEX_PATH
       # map (\<lambda>e. path_resolve rt (DATA_PATH @ entry_file e)) (manifest_entries rt w)"

text \<open>Two worlds that agree on the paths \<open>ps\<close>: each of them holds the same content (or
  nothing) and is as accessible in the one as in the other, and the operating system
  answers \<^verbatim>\<open>mkdir\<close> and \<^verbatim>\<open>writeFile\<close> alike. Every other path may differ.\<close>

definition agree_on :: "string list \<Rightarrow> world \<Rightarrow> world \<Rightarrow> bool" where
  "agree_on ps w1 w2 \<longleftrightarrow>
     mkdir_ok w1 = mkdir_ok w2 \<and> write_ok w1 = write_ok w2 \<and>
     list_all (\<lambda>p. files w1 p = files w2 p \<and> access_ok w1 p = access_ok w2 p) ps"

text \<open>Two worlds with the same inputs: they agree on the manifest and on the quiz files
  its well-formed entries name. Nothing is asked of the output directory nor of any
  other file.\<close>

definition same_inputs :: "runtime \<Rightarrow> world \<Rightarrow> world \<Rightarrow> bool" where
  "same_inputs rt w1 w2 \<longleftrightarrow> agree_on (input_paths rt w1) w1 w2"

text \<open>The manifest is not overwritten: no path the program creates or writes resolves to
  the path of the manifest.\<close>

definition index_apart :: "runtime \<Rightarrow> json list \<Rightarrow> bool" where
  "index_apart rt entries =
     list_all (\<lambda>out. path_resolve rt out \<noteq> path_resolve rt INDEX_PATH)
       ([DIST_PATH, ''dist'', cssFilePath, jsFilePath, ''dist/index.html'']
          @ map outputFilePath (filter well_formed_entry entries))"

text \<open>Two runs in step on the paths \<open>ps\<close>: started in \<open>w1\<close> and \<open>w2\<close>, they have reached
  \<open>w1'\<close> and \<open>w2'\<close>, which still agree on \<open>ps\<close>, having written the same files with the
  same contents in the same order and left every other file alone.\<close>

definition in_step :: "string list \<Rightarrow> world \<Rightarrow> world \<Rightarrow> world \<Rightarrow> world \<Rightarrow> bool" where
  "in_step ps w1 w2 w1' w2' \<longleftrightarrow>
     agree_on ps w1' w2' \<and>
     (\<exists>out. written w1' = written w1 @ out \<and> written w2' = written w2 @ out \<and>
        (\<forall>p. if p \<in> fst ` set out then files w1' p = files w2' p
             else files w1' p = files w1 p \<and> files w2' p = files w2 p))"

definition same_outcome ::
  "string list \<Rightarrow> world \<Rightarrow> world \<Rightarrow> exn option \<times> world \<Rightarrow> exn option \<times> world \<Rightarrow> bool" where
  "same_outcome ps w1 w2 o1 o2 \<longleftrightarrow> fst o1 = fst o2 \<and> in_step ps w1 w2 (snd o1) (snd o2)"

section \<open>A sample site\<close>

text \<open>
  A small site to run the program on. Its runtime resolves a path by dropping a leading
  \<^verbatim>\<open>./\<close> and parses the six JSON texts below to the values beside them. The manifest
  lists a good quiz, a quiz whose \<^verbatim>\<open>questions\<close> is a string, a quiz with a \<^verbatim>\<open>null\<close> answer
  and a file that does not exist.
\<close>

definition site_index_text :: string where
  \<open>site_index_text = ''[{"file":"a.json","title":"Animals"},{"file":"oops.json","title":"Oops"},{"file":"nulls.json","title":"Nulls"},{"file":"gone.json","title":"Gone"}]''\<close>

definition site_entry :: "string \<Rightarrow> string \<Rightarrow> json" where
  "site_entry f t = JObj [(''file'', JStr f), (''title'', JStr t)]"

definition site_entries :: "json list" where
  "site_entries =
     [site_entry ''a.json'' ''Animals'', site_entry ''oops.json'' ''Oops'',
      site_entry ''nulls.json'' ''Nulls'', site_entry ''gone.json'' ''Gone'']"

definition site_index :: json where
  "site_index = JArr site_entries"

definition site_a_text :: string where
  \<open>site_a_text = ''{"title":"Animals","questions":[{"question":"Cat or dog?","answers":[{"answer":"Cat","correct":true},{"answer":"Dog","correct":false}]},{"question":"Broken","answers":"none"}]}''\<close>

definition site_a_questions :: "json list" where
  "site_a_questions =
     [JObj [(''question'', JStr ''Cat or dog?''),
            (''answers'', JArr [JObj [(''answer'', JStr ''Cat''), (''correct'', JBool True)],
                                JObj [(''answer'', JStr ''Dog''), (''correct'', JBool False)]])],
      JObj [(''question'', JStr ''Broken''), (''answers'', JStr ''none'')]]"

definition site_a :: json where
  "site_a = JObj [(''title'', JStr ''Animals''), (''questions'', JArr site_a_questions)]"

definition site_oops_text :: string where
  \<open>site_oops_text = ''{"title":"Oops","questions":"oops"}''\<close>

definition site_oops :: json where
  "site_oops = JObj [(''title'', JStr ''Oops''), (''questions'', JStr ''oops'')]"

definition site_nulls_text :: string where
  \<open>site_nulls_text = ''{"title":"Nulls","questions":[{"question":"Q","answers":[null]}]}''\<close>

definition site_nulls :: json where
  "site_nulls =
     JObj [(''title'', JStr ''Nulls''),
           (''questions'', JArr [JObj [(''question'', JStr ''Q''), (''answers'', JArr [JNull])]])]"

definition site_mixed_text :: string where
  \<open>site_mixed_text = ''{"title":"Mixed","questions":[{"question":"Cat or dog?","answers":[{"answer":"Cat","correct":true}]},{"question":"Broken","answers":"none"},{"question":"Q","answers":[null]}]}''\<close>

definition site_mixed_questions :: "json list" where
  "site_mixed_questions =
     [JObj [(''question'', JStr ''Cat or dog?''),
            (''answers'', JArr [JObj [(''answer'', JStr ''Cat''), (''correct'', JBool True)]])],
      JObj [(''question'', JStr ''Broken''), (''answers'', JStr ''none'')],
      JObj [(''question'', JStr ''Q''), (''answers'', JArr [JNull])]]"

definition site_mixed :: json where
  "site_mixed = JObj [(''title'', JStr ''Mixed''), (''questions'', JArr site_mixed_questions)]"

definition site_object_text :: string where
  \<open>site_object_text = ''{"file":"a.json","title":"Animals"}''\<close>

definition site_parse :: "string \<Rightarrow> exn + json" where
  "site_parse s =
     (if s = site_index_text then Inr site_index
      else if s = site_a_text then Inr site_a
      else if s = site_oops_text then Inr site_oops
      else if s = site_nulls_text then Inr site_nulls
      else if s = site_mixed_text then Inr site_mixed
      else if s = site_object_text then Inr (site_entry ''a.json'' ''Animals'')
      else Inl SyntaxError)"

definition site_resolve :: "string \<Rightarrow> string" where
  "site_resolve p = (if take 2 p = ''./'' then drop 2 p else p)"

definition site_rt :: runtime where
  "site_rt = \<lparr>JSON_parse = site_parse, path_resolve = site_resolve\<rparr>"

text \<open>A world with the given files, where every file present can be accessed and every
  \<^verbatim>\<open>mkdir\<close> and \<^verbatim>\<open>writeFile\<close> succeeds.\<close>

definition world_of :: "(string \<times> string) list \<Rightarrow> world" where
  "world_of fs =
     \<lparr>files = map_of fs, access_ok = (\<lambda>p. p \<in> set (map fst fs)),
      mkdir_ok = (\<lambda>p. True), write_ok = (\<lambda>p. True), written = []\<rparr>"

definition site_world :: world where
  "site_world =
     world_of [(''data/index.json'', site_index_text), (''data/a.json'', site_a_text),
               (''data/oops.json'', site_oops_text), (''data/nulls.json'', site_nulls_text)]"

text \<open>The card of the sample quiz's one well-formed question, and its page.\<close>

definition site_a_card :: string where
  \<open>site_a_card =
''
                <div class="card">
                    <h2>Cat or dog?</h2>
                    <ul>
                        
                            <li class="correct-answer">
                                Cat
                            </li>

                            <li>
                                Dog
                            </li>
                    </ul>
                </div>
            ''\<close>

definition site_a_page :: string where
  "site_a_page = htmlContent ''Animals'' site_a_card"

text \<open>A second world, whose manifest parses to an object instead of an array.\<close>

definition site_world_no_array :: world where
  "site_world_no_array = world_of [(''data/index.json'', site_object_text)]"


text \<open>A third world, with a quiz file whose name contains \<^verbatim>\<open>.json\<close> twice.\<close>

definition site_world_twice :: world where
  "site_world_twice = world_of [(''data/a.json.json'', site_a_text)]"

text \<open>A second runtime for the sample site, whose resolver works as \<^verbatim>\<open>path.resolve\<close> does
  on POSIX with the working directory \<^verbatim>\<open>/site\<close>: it makes the path absolute and normalises
  it, dropping empty and \<^verbatim>\<open>.\<close> segments and going up at \<^verbatim>\<open>..\<close>. Its world holds the sample
  files under their absolute paths, and an output directory left by an earlier run.\<close>

fun split_path :: "string \<Rightarrow> string list" where
  "split_path [] = [[]]"
| "split_path (c # cs) =
     (if c = CHR ''/'' then [] # split_path cs
      else (c # hd (split_path cs)) # tl (split_path cs))"

fun norm_segments :: "string list \<Rightarrow> string list \<Rightarrow> string list" where
  "norm_segments up [] = rev up"
| "norm_segments up (s # ss) =
     (if s = '''' \<or> s = ''.'' then norm_segments up ss
      else if s = ''..'' then norm_segments (tl up) ss
      else norm_segments (s # up) ss)"

definition node_resolve :: "string \<Rightarrow> string" where
  "node_resolve p =
     (let segments = norm_segments (if take 1 p = ''/'' then [] else [''site'']) (split_path p)
      in if segments = [] then ''/'' else concat (map (\<lambda>s. CHR ''/'' # s) segments))"

definition node_rt :: runtime where
  "node_rt = \<lparr>JSON_parse = site_parse, path_resolve = node_resolve\<rparr>"

definition node_world :: world where
  "node_world =
     world_of [(''/site/data/index.json'', site_index_text), (''/site/data/a.json'', site_a_text),
               (''/site/data/oops.json'', site_oops_text), (''/site/data/nulls.json'', site_nulls_text),
               (''/site/dist/a.html'', ''stale''), (''/site/dist/old.html'', ''stale'')]"

section \<open>Basic facts\<close>

lemma bindR_simps [simp]:
  "bindR (Inr v) f = f v"
  "bindR (Inl e) f = Inl e"
  by (simp_all add: bindR_def)


lemma andR_simps [simp]:
  "andR (Inr x) b = (if x then b else Inr False)"
  "andR (Inl e) b = Inl e"
  by (simp_all add: andR_def)

lemma orR_simps [simp]:
  "orR (Inr x) b = (if x then Inr True else b)"
  "orR (Inl e) b = Inl e"
  by (simp_all add: orR_def)

lemma hasProp_JObj: "hasProp k (JObj kv) = Inr (map_of kv k \<noteq> None)"
  by (simp add: map_of_eq_None_iff)

lemma endsWith_iff_suffix: "endsWith s t \<longleftrightarrow> suffix t s"
proof
  assume "endsWith s t"
  then have "s = take (length s - length t) s @ t"
    by (metis append_take_drop_id endsWith_def)
  then show "suffix t s"
    by (metis suffixI)
next
  assume "suffix t s"
  then obtain u where "s = u @ t"
    by (auto simp: suffix_def)
  then show "endsWith s t"
    by (simp add: endsWith_def)
qed

lemma filterR_total:
  assumes "\<And>x. p x = Inr (q x)"
  shows "filterR p xs = Inr (filter q xs)"
  by (induction xs) (simp_all add: assms)

lemma index_entry_ok_eq: "index_entry_ok entry = Inr (well_formed_entry entry)"
proof (cases entry)
  case (JObj kv)
  show ?thesis
  proof (cases "map_of kv ''file''")
    case None
    with JObj show ?thesis
      by (simp add: index_entry_ok_def well_formed_entry_def)
  next
    case (Some f)
    note f_some = this
    show ?thesis
    proof (cases "map_of kv ''title''")
      case None
      with JObj f_some show ?thesis
        by (cases f) (simp_all add: index_entry_ok_def well_formed_entry_def)
    next
      case (Some t)
      with JObj f_some show ?thesis
        by (cases f; cases t)
           (simp_all add: index_entry_ok_def well_formed_entry_def file_endsWith_json_def
              endsWith_iff_suffix)
    qed
  qed
qed (simp_all add: index_entry_ok_def well_formed_entry_def)

lemma parseIndexJson_eq:
  "parseIndexJson data =
     Inr (case data of JArr entries \<Rightarrow> Some (filter well_formed_entry entries) | _ \<Rightarrow> None)"
  by (cases data) (simp_all add: parseIndexJson_def filterR_total [OF index_entry_ok_eq])


lemma wf_entryD:
  assumes "well_formed_entry e"
  obtains kv f t where "e = JObj kv" "map_of kv ''file'' = Some (JStr f)"
    "map_of kv ''title'' = Some (JStr t)" "suffix ''.json'' f"
  using assms
  by (auto simp: well_formed_entry_def split: json.splits option.splits)

lemma wf_getProp_file:
  "well_formed_entry e \<Longrightarrow> getProp e ''file'' = Inr (Some (JStr (entry_file e)))"
  by (erule wf_entryD) (simp add: entry_file_def)

lemma wf_getProp_title:
  "well_formed_entry e \<Longrightarrow> getProp e ''title'' = Inr (Some (JStr (entry_title e)))"
  by (erule wf_entryD) (simp add: entry_title_def)

lemma toStr_JStr [simp]: "toStr (Some (JStr s)) = Inr s"
  by (simp add: toStr_def)

lemma replace_json_html_JStr [simp]:
  "replace_json_html (Some (JStr s)) = Inr (replace ''.json'' ''.html'' s)"
  by (simp add: replace_json_html_def)

lemma index_link_wf: "well_formed_entry e \<Longrightarrow> index_link e = Inr (link_of e)"
  by (simp add: index_link_def index_item_def link_of_def wf_getProp_file wf_getProp_title)

lemma index_links_wf:
  "list_all well_formed_entry es \<Longrightarrow> index_links html es = Inr (html @ concat (map link_of es))"
  by (induction es arbitrary: html) (simp_all add: index_link_wf)

lemma writeHtml_wf:
  "list_all well_formed_entry es \<Longrightarrow>
   writeHtml rt w es = fs_writeFile rt w ''dist/index.html'' (indexHtmlContent (concat (map link_of es)))"
  by (simp add: writeHtml_def index_links_wf)

lemma readJson_total: "\<exists>doc. readJson rt w p = Inr doc"
  by (simp add: readJson_def split: sum.splits)

lemma isValidJsonFile_string: "isValidJsonFile rt w (Some (JStr f)) = Inr (file_ok rt w f)"
proof (cases "access_ok w (path_resolve rt (DATA_PATH @ f))")
  case False
  then show ?thesis
    by (simp add: isValidJsonFile_def isValidJsonFile_try_def fs_access_def file_ok_def)
next
  case True
  obtain doc where doc: "readJson rt w (DATA_PATH @ f) = Inr doc"
    using readJson_total by blast
  show ?thesis
  proof (cases doc)
    case (JObj kv)
    with True doc show ?thesis
      by (auto simp: isValidJsonFile_def isValidJsonFile_try_def fs_access_def file_ok_def
            hasProp_JObj simp del: hasProp.simps split: option.splits)
  qed (use True doc in \<open>simp_all add: isValidJsonFile_def isValidJsonFile_try_def fs_access_def file_ok_def\<close>)
qed

lemma validFiles_loop_wf:
  "list_all well_formed_entry es \<Longrightarrow>
   validFiles_loop rt w es = Inr (filter (\<lambda>e. file_ok rt w (entry_file e)) es)"
  by (induction es) (simp_all add: wf_getProp_file isValidJsonFile_string)


lemma quizPage_questions_not_array:
  assumes "map_of kv ''questions'' = Some q" "\<not> isArray (Some q)"
  shows "quizPage (JObj kv) = Inr None"
  using assms
  by (cases "map_of kv ''title''")
     (simp_all add: quizPage_def hasProp_JObj del: hasProp.simps)

lemma generateAllHtml_try_skip:
  assumes "getProp entry ''file'' = Inr (Some (JStr f))"
    and "readJson rt w (DATA_PATH @ f) = Inr doc"
    and "quizPage doc = Inr None"
  shows "generateAllHtml_try rt w entry = (None, w)"
  using assms by (simp add: generateAllHtml_try_def)

lemma generateAllHtml_entry_caught:
  assumes "getProp entry ''file'' = Inr (Some (JStr f))"
    and "generateAllHtml_try rt w entry = (r, w')"
  shows "generateAllHtml_entry rt w entry = (None, w')"
  using assms by (cases r) (simp_all add: generateAllHtml_entry_def)

lemma site_read_oops: "readJson site_rt site_world (DATA_PATH @ ''oops.json'') = Inr site_oops"
  by (simp add: readJson_def fs_readFile_def site_rt_def site_world_def world_of_def
      site_resolve_def DATA_PATH_def site_parse_def site_oops_text_def site_index_text_def
      site_a_text_def)


lemma bindR_eq_Inl: "bindR m f = Inl e \<longleftrightarrow> m = Inl e \<or> (\<exists>v. m = Inr v \<and> f v = Inl e)"
  by (cases m) simp_all

lemma bindR_InlE:
  assumes "bindR m f = Inl e"
  obtains "m = Inl e" | v where "m = Inr v" "f v = Inl e"
  using assms by (cases m) simp_all

lemma sequenceR_Inr_iff: "sequenceR ms = Inr vs \<longleftrightarrow> ms = map Inr vs"
proof (induction ms arbitrary: vs)
  case Nil
  show ?case by auto
next
  case (Cons m ms)
  show ?case
  proof (cases m)
    case (Inl e)
    then show ?thesis by (cases vs) auto
  next
    case (Inr v)
    show ?thesis
    proof (cases "sequenceR ms")
      case (Inl e)
      with Inr Cons.IH show ?thesis by (cases vs) auto
    next
      case (Inr us)
      with \<open>m = Inr v\<close> Cons.IH show ?thesis by (cases vs) auto
    qed
  qed
qed

lemma mapR_Inr_iff: "mapR f xs = Inr ys \<longleftrightarrow> map f xs = map Inr ys"
  by (simp add: mapR_def sequenceR_Inr_iff)

lemma sequenceR_Inl: "sequenceR ms = Inl e \<Longrightarrow> Inl e \<in> set ms"
proof (induction ms)
  case Nil
  then show ?case by simp
next
  case (Cons m ms)
  then show ?case
    by (cases m; cases "sequenceR ms") auto
qed

lemma sequenceR_has_Inl: "Inl e \<in> set ms \<Longrightarrow> \<exists>e'. sequenceR ms = Inl e'"
proof (induction ms)
  case Nil
  then show ?case by simp
next
  case (Cons m ms)
  then show ?case
    by (cases m; cases "sequenceR ms") auto
qed

lemma toStringJ_TypeError: "toStringJ j = Inl e \<Longrightarrow> e = TypeError"
proof (induction j arbitrary: e rule: toStringJ.induct)
  case (5 xs)
  from "5.prems" have "sequenceR (map (\<lambda>x. if x = JNull then Inr '''' else toStringJ x) xs) = Inl e"
    by (auto simp: bindR_def split: sum.splits)
  then have "Inl e \<in> set (map (\<lambda>x. if x = JNull then Inr '''' else toStringJ x) xs)"
    by (rule sequenceR_Inl)
  then obtain x where "x \<in> set xs" "x \<noteq> JNull" "toStringJ x = Inl e"
    by (auto split: if_splits)
  then show ?case using "5.IH" by blast
qed (auto split: if_splits)

lemma toStr_TypeError: "toStr v = Inl e \<Longrightarrow> e = TypeError"
  by (cases v) (auto simp: toStr_def dest: toStringJ_TypeError)

lemma getProp_TypeError: "getProp v k = Inl e \<Longrightarrow> e = TypeError"
  by (cases v) auto

lemma answer_html_TypeError: "answer_html a = Inl e \<Longrightarrow> e = TypeError"
  unfolding answer_html_def
  by (elim bindR_InlE) (erule getProp_TypeError toStr_TypeError | simp)+

lemma mapR_Inl: "mapR f xs = Inl e \<Longrightarrow> \<exists>x\<in>set xs. f x = Inl e"
  using sequenceR_Inl [of "map f xs" e] by (auto simp: mapR_def)

lemma mapR_has_Inl: "x \<in> set xs \<Longrightarrow> f x = Inl e \<Longrightarrow> \<exists>e'. mapR f xs = Inl e'"
  unfolding mapR_def by (rule sequenceR_has_Inl [of e]) force

lemma answers_case_TypeError:
  assumes "(case answers of Some (JArr as) \<Rightarrow> bindR (mapR answer_html as) (\<lambda>items. Inr (g items))
            | _ \<Rightarrow> Inl TypeError) = Inl e"
  shows "e = TypeError"
proof (cases answers)
  case None
  with assms show ?thesis by simp
next
  case (Some a)
  show ?thesis
  proof (cases a)
    case (JArr as)
    with Some assms have "mapR answer_html as = Inl e"
      by (simp add: bindR_eq_Inl)
    then show ?thesis
      by (blast dest: mapR_Inl answer_html_TypeError)
  qed (use Some assms in simp_all)
qed

lemma question_html_TypeError: "question_html q = Inl e \<Longrightarrow> e = TypeError"
  unfolding question_html_def
  by (elim bindR_InlE) (erule getProp_TypeError toStr_TypeError answers_case_TypeError)+

lemma has_array_answers_eq:
  "has_array_answers q = (if q = JNull then Inl TypeError else Inr (answers_is_array q))"
  by (cases q) (simp_all add: has_array_answers_def answers_is_array_def)

lemma filterR_Inl: "filterR p xs = Inl e \<Longrightarrow> \<exists>x\<in>set xs. p x = Inl e"
proof (induction xs)
  case Nil
  then show ?case by simp
next
  case (Cons x xs)
  then show ?case
    by (cases "p x"; cases "filterR p xs") auto
qed

lemma filterR_Inr: "filterR p xs = Inr ys \<Longrightarrow> ys = filter (\<lambda>x. p x = Inr True) xs"
proof (induction xs arbitrary: ys)
  case Nil
  then show ?case by simp
next
  case (Cons x xs)
  then show ?case
    by (cases "p x"; cases "filterR p xs") auto
qed

lemma filterR_answers:
  "filterR has_array_answers qs = Inr ys \<Longrightarrow> ys = filter answers_is_array qs"
proof -
  assume a: "filterR has_array_answers qs = Inr ys"
  have "(\<lambda>x. has_array_answers x = Inr True) = answers_is_array"
    by (rule ext) (simp add: has_array_answers_eq answers_is_array_def)
  with filterR_Inr [OF a] show ?thesis by simp
qed


lemma has_array_answers_TypeError: "has_array_answers q = Inl e \<Longrightarrow> e = TypeError"
  by (simp add: has_array_answers_eq split: if_splits)

lemma questionsHtml_TypeError: "questionsHtml qs = Inl e \<Longrightarrow> e = TypeError"
  unfolding questionsHtml_def
  by (elim bindR_InlE)
     (blast dest: filterR_Inl mapR_Inl question_html_TypeError has_array_answers_TypeError)+

lemma question_html_null_answer:
  assumes "getProp q ''answers'' = Inr (Some (JArr as))" "JNull \<in> set as"
  shows "\<exists>e. question_html q = Inl e"
proof -
  have "answer_html JNull = Inl TypeError"
    by (simp add: answer_html_def)
  with assms(2) obtain e where "mapR answer_html as = Inl e"
    using mapR_has_Inl [of JNull as answer_html TypeError] by blast
  show ?thesis
  proof (cases "getProp q ''question''")
    case (Inl e1)
    then show ?thesis by (simp add: question_html_def)
  next
    case (Inr qn)
    show ?thesis
    proof (cases "toStr qn")
      case (Inl e2)
      with Inr show ?thesis by (simp add: question_html_def)
    next
      case (Inr heading)
      with \<open>getProp q ''question'' = Inr qn\<close> assms(1) \<open>mapR answer_html as = Inl e\<close>
      show ?thesis by (simp add: question_html_def)
    qed
  qed
qed

lemma questionsHtml_null_answer:
  assumes "q \<in> set qs" "getProp q ''answers'' = Inr (Some (JArr as))" "JNull \<in> set as"
  shows "questionsHtml qs = Inl TypeError"
proof (cases "filterR has_array_answers qs")
  case (Inl e)
  then have "questionsHtml qs = Inl e"
    by (simp add: questionsHtml_def)
  then show ?thesis
    using questionsHtml_TypeError by blast
next
  case (Inr ys)
  then have ys: "ys = filter answers_is_array qs"
    by (rule filterR_answers)
  have "answers_is_array q"
    using assms(2) by (simp add: answers_is_array_def)
  with assms(1) ys have "q \<in> set ys" by simp
  moreover obtain e where "question_html q = Inl e"
    using question_html_null_answer [OF assms(2,3)] by blast
  ultimately obtain e' where "mapR question_html ys = Inl e'"
    using mapR_has_Inl [of q ys question_html e] by blast
  with Inr have "questionsHtml qs = Inl e'"
    by (simp add: questionsHtml_def)
  then show ?thesis
    using questionsHtml_TypeError by blast
qed


lemma site_a_cards:
  "map question_html (filter answers_is_array site_a_questions) = map Inr [site_a_card]"
  by (simp add: site_a_questions_def answers_is_array_def question_html_def answer_html_def
      mapR_def question_card_def answer_item_def site_a_card_def)

lemma site_a_questionsHtml: "questionsHtml site_a_questions = Inr site_a_card"
proof -
  have "filterR has_array_answers site_a_questions = Inr (filter answers_is_array site_a_questions)"
    by (simp add: site_a_questions_def has_array_answers_def answers_is_array_def)
  moreover have "mapR question_html (filter answers_is_array site_a_questions) = Inr [site_a_card]"
    using site_a_cards by (simp add: mapR_Inr_iff)
  ultimately show ?thesis
    by (simp add: questionsHtml_def)
qed

lemma site_a_quizPage: "quizPage site_a = Inr (Some site_a_page)"
  by (simp add: quizPage_def site_a_def site_a_questionsHtml site_a_page_def)

lemma site_read_nulls: "readJson site_rt site_world (DATA_PATH @ ''nulls.json'') = Inr site_nulls"
  by (simp add: readJson_def fs_readFile_def site_rt_def site_world_def world_of_def
      site_resolve_def DATA_PATH_def site_parse_def site_nulls_text_def site_index_text_def
      site_a_text_def site_oops_text_def)


lemma evolves_refl: "evolves T w w"
  by (simp add: evolves_def)

lemma evolves_mono: "evolves T w w' \<Longrightarrow> T \<subseteq> T' \<Longrightarrow> evolves T' w w'"
  unfolding evolves_def by blast

lemma evolves_trans:
  assumes "evolves T w w'" "evolves T w' w''"
  shows "evolves T w w''"
proof -
  from assms(1) obtain ws where ws: "written w' = written w @ ws" "fst ` set ws \<subseteq> T"
    unfolding evolves_def by blast
  from assms(2) obtain ws' where ws': "written w'' = written w' @ ws'" "fst ` set ws' \<subseteq> T"
    unfolding evolves_def by blast
  from ws ws' have "written w'' = written w @ (ws @ ws')" "fst ` set (ws @ ws') \<subseteq> T"
    by auto
  then have "\<exists>us. written w'' = written w @ us \<and> fst ` set us \<subseteq> T"
    by blast
  with assms show ?thesis
    unfolding evolves_def by simp
qed

lemma evolves_mkdir: "evolves {path_resolve rt dir} w (snd (fs_mkdir rt w dir))"
  by (simp add: fs_mkdir_def evolves_def Let_def)

lemma evolves_writeFile: "evolves {path_resolve rt file} w (snd (fs_writeFile rt w file content))"
  by (simp add: fs_writeFile_def evolves_def Let_def)

lemma written_writeFile:
  "written (snd (fs_writeFile rt w file content)) =
     written w @ (if write_ok w (path_resolve rt file) then [(path_resolve rt file, content)] else [])"
  by (simp add: fs_writeFile_def Let_def)

lemma evolves_verdicts:
  "evolves T w w' \<Longrightarrow> mkdir_ok w' = mkdir_ok w \<and> write_ok w' = write_ok w"
  by (simp add: evolves_def)

lemma generateCssFile_eq:
  "generateCssFile rt w =
     (if mkdir_ok w (path_resolve rt DIST_PATH)
      then snd (fs_writeFile rt (snd (fs_mkdir rt w DIST_PATH)) cssFilePath cssContent)
      else w)"
  by (simp add: generateCssFile_def fs_mkdir_def Let_def)

lemma generateJsFile_eq:
  "generateJsFile rt w =
     (if mkdir_ok w (path_resolve rt DIST_PATH)
      then snd (fs_writeFile rt (snd (fs_mkdir rt w DIST_PATH)) jsFilePath jsContent)
      else w)"
  by (simp add: generateJsFile_def fs_mkdir_def Let_def)

lemma evolves_css:
  "evolves {path_resolve rt DIST_PATH, path_resolve rt cssFilePath} w (generateCssFile rt w)"
proof (cases "mkdir_ok w (path_resolve rt DIST_PATH)")
  case True
  have "evolves {path_resolve rt DIST_PATH, path_resolve rt cssFilePath} w (snd (fs_mkdir rt w DIST_PATH))"
    by (rule evolves_mono [OF evolves_mkdir]) simp
  moreover have "evolves {path_resolve rt DIST_PATH, path_resolve rt cssFilePath}
      (snd (fs_mkdir rt w DIST_PATH))
      (snd (fs_writeFile rt (snd (fs_mkdir rt w DIST_PATH)) cssFilePath cssContent))"
    by (rule evolves_mono [OF evolves_writeFile]) simp
  ultimately have "evolves {path_resolve rt DIST_PATH, path_resolve rt cssFilePath} w
      (snd (fs_writeFile rt (snd (fs_mkdir rt w DIST_PATH)) cssFilePath cssContent))"
    by (rule evolves_trans)
  then show ?thesis
    using True by (simp add: generateCssFile_eq)
next
  case False
  then show ?thesis by (simp add: generateCssFile_eq evolves_refl)
qed

lemma evolves_js:
  "evolves {path_resolve rt DIST_PATH, path_resolve rt jsFilePath} w (generateJsFile rt w)"
proof (cases "mkdir_ok w (path_resolve rt DIST_PATH)")
  case True
  have "evolves {path_resolve rt DIST_PATH, path_resolve rt jsFilePath} w (snd (fs_mkdir rt w DIST_PATH))"
    by (rule evolves_mono [OF evolves_mkdir]) simp
  moreover have "evolves {path_resolve rt DIST_PATH, path_resolve rt jsFilePath}
      (snd (fs_mkdir rt w DIST_PATH))
      (snd (fs_writeFile rt (snd (fs_mkdir rt w DIST_PATH)) jsFilePath jsContent))"
    by (rule evolves_mono [OF evolves_writeFile]) simp
  ultimately have "evolves {path_resolve rt DIST_PATH, path_resolve rt jsFilePath} w
      (snd (fs_writeFile rt (snd (fs_mkdir rt w DIST_PATH)) jsFilePath jsContent))"
    by (rule evolves_trans)
  then show ?thesis
    using True by (simp add: generateJsFile_eq)
next
  case False
  then show ?thesis by (simp add: generateJsFile_eq evolves_refl)
qed

lemma written_css:
  "written (generateCssFile rt w) = written w @
     (if mkdir_ok w (path_resolve rt DIST_PATH) \<and> write_ok w (path_resolve rt cssFilePath)
      then [(path_resolve rt cssFilePath, cssContent)] else [])"
  by (simp add: generateCssFile_eq written_writeFile) (simp add: fs_mkdir_def Let_def)

lemma written_js:
  "written (generateJsFile rt w) = written w @
     (if mkdir_ok w (path_resolve rt DIST_PATH) \<and> write_ok w (path_resolve rt jsFilePath)
      then [(path_resolve rt jsFilePath, jsContent)] else [])"
  by (simp add: generateJsFile_eq written_writeFile) (simp add: fs_mkdir_def Let_def)

lemma written_assets:
  "written (generateJsFile rt (generateCssFile rt w)) = written w @ asset_writes rt w"
  using evolves_verdicts [OF evolves_css, of rt w]
  by (simp add: written_js written_css asset_writes_def)

lemma evolves_assets:
  "evolves {path_resolve rt DIST_PATH, path_resolve rt cssFilePath, path_resolve rt jsFilePath}
     w (generateJsFile rt (generateCssFile rt w))"
proof -
  have "evolves {path_resolve rt DIST_PATH, path_resolve rt cssFilePath, path_resolve rt jsFilePath}
     w (generateCssFile rt w)"
    by (rule evolves_mono [OF evolves_css]) auto
  moreover have "evolves {path_resolve rt DIST_PATH, path_resolve rt cssFilePath, path_resolve rt jsFilePath}
     (generateCssFile rt w) (generateJsFile rt (generateCssFile rt w))"
    by (rule evolves_mono [OF evolves_js]) auto
  ultimately show ?thesis by (rule evolves_trans)
qed


lemma evolves_writeHtml:
  "evolves {path_resolve rt ''dist/index.html''} w (snd (writeHtml rt w data))"
  by (cases "index_links '''' data") (simp_all add: writeHtml_def evolves_refl evolves_writeFile)

lemma generateAllHtml_try_wf:
  assumes "well_formed_entry e"
  shows "generateAllHtml_try rt w e =
     (case page_of rt w e of
        None \<Rightarrow> (case bindR (readJson rt w (DATA_PATH @ entry_file e)) quizPage of
                   Inl x \<Rightarrow> (Some x, w) | Inr _ \<Rightarrow> (None, w))
      | Some content \<Rightarrow>
          (if mkdir_ok w (path_resolve rt ''dist'')
           then fs_writeFile rt (snd (fs_mkdir rt w ''dist'')) (outputFilePath e) content
           else (Some SystemError, w)))"
  using wf_getProp_file [OF assms]
  by (simp add: generateAllHtml_try_def page_of_def outputFilePath_def fs_mkdir_def Let_def
      split: sum.splits option.splits)

lemma generateAllHtml_entry_wf:
  assumes "well_formed_entry e"
  shows "generateAllHtml_entry rt w e =
     (None, case page_of rt w e of
              None \<Rightarrow> w
            | Some content \<Rightarrow>
                (if mkdir_ok w (path_resolve rt ''dist'')
                 then snd (fs_writeFile rt (snd (fs_mkdir rt w ''dist'')) (outputFilePath e) content)
                 else w))"
proof -
  obtain r w' where rw: "generateAllHtml_try rt w e = (r, w')"
    by (cases "generateAllHtml_try rt w e") auto
  then have "generateAllHtml_entry rt w e = (None, w')"
    using wf_getProp_file [OF assms] generateAllHtml_entry_caught by blast
  moreover have "w' = (case page_of rt w e of
              None \<Rightarrow> w
            | Some content \<Rightarrow>
                (if mkdir_ok w (path_resolve rt ''dist'')
                 then snd (fs_writeFile rt (snd (fs_mkdir rt w ''dist'')) (outputFilePath e) content)
                 else w))"
    using rw unfolding generateAllHtml_try_wf [OF assms]
    by (auto split: option.splits sum.splits if_splits)
  ultimately show ?thesis by simp
qed

lemma written_entry_wf:
  assumes "well_formed_entry e"
  shows "written (snd (generateAllHtml_entry rt w e)) =
           written w @ (if page_ok rt w e then [page_write rt w e] else [])"
  by (cases "page_of rt w e")
     (simp_all add: generateAllHtml_entry_wf [OF assms] page_ok_def page_write_def
        written_writeFile, simp_all add: fs_mkdir_def Let_def)

lemma evolves_entry_wf:
  assumes "well_formed_entry e"
  shows "evolves {path_resolve rt ''dist'', path_resolve rt (outputFilePath e)} w
           (snd (generateAllHtml_entry rt w e))"
proof (cases "page_of rt w e")
  case None
  then show ?thesis
    by (simp add: generateAllHtml_entry_wf [OF assms] evolves_refl)
next
  case (Some content)
  let ?T = "{path_resolve rt ''dist'', path_resolve rt (outputFilePath e)}"
  have "evolves ?T w (snd (fs_mkdir rt w ''dist''))"
    by (rule evolves_mono [OF evolves_mkdir]) simp
  moreover have "evolves ?T (snd (fs_mkdir rt w ''dist''))
      (snd (fs_writeFile rt (snd (fs_mkdir rt w ''dist'')) (outputFilePath e) content))"
    by (rule evolves_mono [OF evolves_writeFile]) simp
  ultimately have "evolves ?T w
      (snd (fs_writeFile rt (snd (fs_mkdir rt w ''dist'')) (outputFilePath e) content))"
    by (rule evolves_trans)
  then show ?thesis
    using Some by (simp add: generateAllHtml_entry_wf [OF assms] evolves_refl)
qed

lemma readJson_frame:
  "files w' (path_resolve rt p) = files w (path_resolve rt p) \<Longrightarrow> readJson rt w' p = readJson rt w p"
  by (simp add: readJson_def fs_readFile_def)

lemma page_of_frame:
  assumes "files w' (path_resolve rt (DATA_PATH @ entry_file e))
             = files w (path_resolve rt (DATA_PATH @ entry_file e))"
  shows "page_of rt w' e = page_of rt w e"
  using readJson_frame [OF assms] by (simp add: page_of_def)

lemma file_ok_frame:
  assumes "files w' (path_resolve rt (DATA_PATH @ f)) = files w (path_resolve rt (DATA_PATH @ f))"
    and "access_ok w' (path_resolve rt (DATA_PATH @ f)) = access_ok w (path_resolve rt (DATA_PATH @ f))"
  shows "file_ok rt w' f = file_ok rt w f"
  using readJson_frame [OF assms(1)] assms(2) by (simp add: file_ok_def)

lemma generateAllHtml_wf_fst:
  "list_all well_formed_entry es \<Longrightarrow> fst (generateAllHtml rt w es) = None"
  by (induction es arbitrary: w) (simp_all add: generateAllHtml_entry_wf)

lemma evolves_generateAllHtml:
  "list_all well_formed_entry es \<Longrightarrow>
   evolves (insert (path_resolve rt ''dist'') ((\<lambda>e. path_resolve rt (outputFilePath e)) ` set es))
     w (snd (generateAllHtml rt w es))"
proof (induction es arbitrary: w)
  case Nil
  then show ?case by (simp add: evolves_refl)
next
  case (Cons e es)
  let ?T = "insert (path_resolve rt ''dist'') ((\<lambda>e. path_resolve rt (outputFilePath e)) ` set (e # es))"
  from Cons.prems have wf: "well_formed_entry e" "list_all well_formed_entry es" by simp_all
  obtain w1 where w1: "generateAllHtml_entry rt w e = (None, w1)"
    using generateAllHtml_entry_wf [OF wf(1)] by blast
  have "evolves ?T w w1"
    using evolves_entry_wf [OF wf(1), of rt w] w1
    by (auto intro: evolves_mono)
  moreover have "evolves ?T w1 (snd (generateAllHtml rt w1 es))"
    by (rule evolves_mono [OF Cons.IH [OF wf(2)]]) auto
  ultimately show ?case
    using w1 by (simp add: evolves_trans)
qed


lemma main_not_array:
  assumes "readJson rt w INDEX_PATH = Inr idx" "\<not> isArray (Some idx)"
  shows "main rt w = (None, generateJsFile rt (generateCssFile rt w))"
  using assms by (cases idx) (simp_all add: main_def parseIndexJson_eq Let_def)

lemma list_all_filter_wf: "list_all well_formed_entry (filter well_formed_entry entries)"
  by (simp add: list_all_iff)

lemma list_all_valid_entries: "list_all well_formed_entry (valid_entries rt w entries)"
  by (simp add: valid_entries_def list_all_iff)

lemma main_array:
  assumes "readJson rt w INDEX_PATH = Inr (JArr entries)"
  shows "main rt w =
     (let w2 = generateJsFile rt (generateCssFile rt w);
          validFiles = valid_entries rt w2 entries
      in case writeHtml rt w2 validFiles of
           (Some e, w3) \<Rightarrow> (Some e, w3)
         | (None, w3) \<Rightarrow> generateAllHtml rt w3 validFiles)"
  using assms
  by (simp add: main_def parseIndexJson_eq Let_def validFiles_loop_wf list_all_filter_wf
      valid_entries_def)

lemma writeHtml_valid:
  "writeHtml rt w (valid_entries rt w' entries) =
     fs_writeFile rt w ''dist/index.html''
       (indexHtmlContent (concat (map link_of (valid_entries rt w' entries))))"
  by (rule writeHtml_wf) (rule list_all_valid_entries)

lemma evolves_written_prefix: "evolves T w w' \<Longrightarrow> set (written w) \<subseteq> set (written w')"
  unfolding evolves_def by auto

lemma evolves_main:
  "\<exists>T. evolves T (generateJsFile rt (generateCssFile rt w)) (snd (main rt w))"
proof -
  obtain idx where idx: "readJson rt w INDEX_PATH = Inr idx"
    using readJson_total by blast
  let ?w2 = "generateJsFile rt (generateCssFile rt w)"
  show ?thesis
  proof (cases "isArray (Some idx)")
    case False
    with idx have "main rt w = (None, ?w2)" by (rule main_not_array)
    then have "evolves {} ?w2 (snd (main rt w))" by (simp add: evolves_refl)
    then show ?thesis ..
  next
    case True
    then obtain entries where "idx = JArr entries"
      by (cases idx) simp_all
    with idx have m: "main rt w =
       (case writeHtml rt ?w2 (valid_entries rt ?w2 entries) of
           (Some e, w3) \<Rightarrow> (Some e, w3)
         | (None, w3) \<Rightarrow> generateAllHtml rt w3 (valid_entries rt ?w2 entries))"
      by (simp add: main_array Let_def)
    obtain r w3 where w3: "writeHtml rt ?w2 (valid_entries rt ?w2 entries) = (r, w3)"
      by (cases "writeHtml rt ?w2 (valid_entries rt ?w2 entries)") auto
    let ?T = "insert (path_resolve rt ''dist/index.html'') (insert (path_resolve rt ''dist'')
       ((\<lambda>e. path_resolve rt (outputFilePath e)) ` set (valid_entries rt ?w2 entries)))"
    have "evolves {path_resolve rt ''dist/index.html''} ?w2 w3"
      using evolves_writeHtml [of rt ?w2 "valid_entries rt ?w2 entries"] w3 by simp
    then have e1: "evolves ?T ?w2 w3"
      by (rule evolves_mono) simp
    show ?thesis
    proof (cases r)
      case (Some e)
      with m w3 have "snd (main rt w) = w3" by simp
      with e1 have "evolves ?T ?w2 (snd (main rt w))" by simp
      then show ?thesis ..
    next
      case None
      with m w3 have "snd (main rt w) = snd (generateAllHtml rt w3 (valid_entries rt ?w2 entries))"
        by simp
      moreover have "evolves ?T w3 (snd (generateAllHtml rt w3 (valid_entries rt ?w2 entries)))"
        by (rule evolves_mono [OF evolves_generateAllHtml [OF list_all_valid_entries]]) auto
      ultimately have "evolves ?T w3 (snd (main rt w))"
        by simp
      with e1 have "evolves ?T ?w2 (snd (main rt w))"
        by (rule evolves_trans)
      then show ?thesis ..
    qed
  qed
qed

lemma generateAllHtml_written:
  assumes "list_all well_formed_entry es"
    and "mkdir_ok w' = mkdir_ok w" "write_ok w' = write_ok w"
    and "\<forall>e\<in>set es. files w' (path_resolve rt (DATA_PATH @ entry_file e))
                         = files w (path_resolve rt (DATA_PATH @ entry_file e))"
    and "\<forall>e\<in>set es. \<forall>e'\<in>set es.
           path_resolve rt (outputFilePath e) \<noteq> path_resolve rt (DATA_PATH @ entry_file e')"
    and "\<forall>e'\<in>set es. path_resolve rt ''dist'' \<noteq> path_resolve rt (DATA_PATH @ entry_file e')"
  shows "written (snd (generateAllHtml rt w' es)) =
           written w' @ map (page_write rt w) (filter (page_ok rt w) es)"
  using assms
proof (induction es arbitrary: w')
  case Nil
  then show ?case by simp
next
  case (Cons e es)
  from Cons.prems(1) have wf: "well_formed_entry e" "list_all well_formed_entry es" by simp_all
  let ?d = "\<lambda>e. path_resolve rt (DATA_PATH @ entry_file e)"
  have same_e: "files w' (?d e) = files w (?d e)"
    using Cons.prems(4) by simp
  have page: "page_of rt w' e = page_of rt w e"
    using same_e by (rule page_of_frame)
  have ok: "page_ok rt w' e = page_ok rt w e"
    using page Cons.prems(2,3) by (simp add: page_ok_def)
  have pw: "page_write rt w' e = page_write rt w e"
    using page by (simp add: page_write_def)
  obtain w1 where w1: "generateAllHtml_entry rt w' e = (None, w1)"
    using generateAllHtml_entry_wf [OF wf(1)] by blast
  have ev: "evolves {path_resolve rt ''dist'', path_resolve rt (outputFilePath e)} w' w1"
    using evolves_entry_wf [OF wf(1), of rt w'] w1 by simp
  have log1: "written w1 = written w' @ (if page_ok rt w e then [page_write rt w e] else [])"
    using written_entry_wf [OF wf(1), of rt w'] w1 ok pw by simp
  have v1: "mkdir_ok w1 = mkdir_ok w" "write_ok w1 = write_ok w"
    using evolves_verdicts [OF ev] Cons.prems(2,3) by simp_all
  have f1: "\<forall>e'\<in>set es. files w1 (?d e') = files w (?d e')"
  proof
    fix e' assume e': "e' \<in> set es"
    then have "?d e' \<notin> {path_resolve rt ''dist'', path_resolve rt (outputFilePath e)}"
      using Cons.prems(5,6) by (auto simp del: outputFilePath_def)
    then have "files w1 (?d e') = files w' (?d e')"
      using ev unfolding evolves_def by blast
    with e' Cons.prems(4) show "files w1 (?d e') = files w (?d e')" by simp
  qed
  have "written (snd (generateAllHtml rt w1 es)) =
           written w1 @ map (page_write rt w) (filter (page_ok rt w) es)"
    using wf(2) v1 f1 Cons.prems(5,6) by (intro Cons.IH) simp_all
  with w1 log1 show ?case by simp
qed


lemma apartD:
  assumes "apart rt entries" "e \<in> set entries" "well_formed_entry e"
  shows "path_resolve rt DIST_PATH \<noteq> path_resolve rt (DATA_PATH @ entry_file e)"
    and "path_resolve rt ''dist'' \<noteq> path_resolve rt (DATA_PATH @ entry_file e)"
    and "path_resolve rt cssFilePath \<noteq> path_resolve rt (DATA_PATH @ entry_file e)"
    and "path_resolve rt jsFilePath \<noteq> path_resolve rt (DATA_PATH @ entry_file e)"
    and "path_resolve rt ''dist/index.html'' \<noteq> path_resolve rt (DATA_PATH @ entry_file e)"
    and "\<And>e'. e' \<in> set entries \<Longrightarrow> well_formed_entry e' \<Longrightarrow>
           path_resolve rt (outputFilePath e') \<noteq> path_resolve rt (DATA_PATH @ entry_file e)"
  using assms unfolding apart_def Let_def list_all_iff by auto

lemma valid_entries_subset:
  "e \<in> set (valid_entries rt w entries) \<Longrightarrow> e \<in> set entries \<and> well_formed_entry e"
  by (simp add: valid_entries_def)

lemma valid_entries_frame:
  assumes "\<forall>e\<in>set entries. well_formed_entry e \<longrightarrow>
             files w' (path_resolve rt (DATA_PATH @ entry_file e))
               = files w (path_resolve rt (DATA_PATH @ entry_file e))
           \<and> access_ok w' (path_resolve rt (DATA_PATH @ entry_file e))
               = access_ok w (path_resolve rt (DATA_PATH @ entry_file e))"
  shows "valid_entries rt w' entries = valid_entries rt w entries"
  unfolding valid_entries_def
  by (rule filter_cong [OF refl]) (use assms in \<open>auto intro!: file_ok_frame\<close>)

lemma main_written:
  assumes idx: "readJson rt w INDEX_PATH = Inr (JArr entries)"
    and ok: "write_ok w (path_resolve rt ''dist/index.html'')"
    and ap: "apart rt entries"
  shows "fst (main rt w) = None"
    and "written (snd (main rt w)) =
           written w @ asset_writes rt w
           @ [(path_resolve rt ''dist/index.html'',
               indexHtmlContent (concat (map link_of (valid_entries rt w entries))))]
           @ map (page_write rt w) (filter (page_ok rt w) (valid_entries rt w entries))"
proof -
  let ?w2 = "generateJsFile rt (generateCssFile rt w)"
  let ?d = "\<lambda>e. path_resolve rt (DATA_PATH @ entry_file e)"
  let ?vs = "valid_entries rt w entries"
  let ?page = "indexHtmlContent (concat (map link_of ?vs))"
  let ?w3 = "snd (fs_writeFile rt ?w2 ''dist/index.html'' ?page)"
  have ev2: "evolves {path_resolve rt DIST_PATH, path_resolve rt cssFilePath, path_resolve rt jsFilePath}
     w ?w2"
    by (rule evolves_assets)
  have same2: "files ?w2 (?d e) = files w (?d e) \<and> access_ok ?w2 (?d e) = access_ok w (?d e)"
    if "e \<in> set entries" "well_formed_entry e" for e
  proof -
    have "?d e \<notin> {path_resolve rt DIST_PATH, path_resolve rt cssFilePath, path_resolve rt jsFilePath}"
      using apartD(1,3,4) [OF ap that] by auto
    then show ?thesis
      using ev2 unfolding evolves_def by blast
  qed
  then have vs2: "valid_entries rt ?w2 entries = ?vs"
    by (intro valid_entries_frame) blast
  have v2: "mkdir_ok ?w2 = mkdir_ok w" "write_ok ?w2 = write_ok w"
    using evolves_verdicts [OF ev2] by simp_all
  have wh: "writeHtml rt ?w2 ?vs = (None, ?w3)"
    using ok v2
    by (simp add: writeHtml_valid) (simp add: fs_writeFile_def Let_def)
  have m: "main rt w = generateAllHtml rt ?w3 ?vs"
    using idx vs2 wh by (simp add: main_array Let_def)
  have ev3: "evolves {path_resolve rt ''dist/index.html''} ?w2 ?w3"
    by (rule evolves_writeFile)
  have v3: "mkdir_ok ?w3 = mkdir_ok w" "write_ok ?w3 = write_ok w"
    using evolves_verdicts [OF ev3] v2 by simp_all
  have same3: "\<forall>e\<in>set ?vs. files ?w3 (?d e) = files w (?d e)"
  proof
    fix e assume "e \<in> set ?vs"
    then have e: "e \<in> set entries" "well_formed_entry e"
      using valid_entries_subset by blast+
    have "?d e \<notin> {path_resolve rt ''dist/index.html''}"
      using apartD(5) [OF ap e] by auto
    then have "files ?w3 (?d e) = files ?w2 (?d e)"
      using ev3 unfolding evolves_def by blast
    with same2 [OF e] show "files ?w3 (?d e) = files w (?d e)" by simp
  qed
  have noalias: "\<forall>e\<in>set ?vs. \<forall>e'\<in>set ?vs. path_resolve rt (outputFilePath e) \<noteq> ?d e'"
    using apartD(6) [OF ap] valid_entries_subset by blast
  have nodist: "\<forall>e'\<in>set ?vs. path_resolve rt ''dist'' \<noteq> ?d e'"
    using apartD(2) [OF ap] valid_entries_subset by blast
  have pages: "written (snd (generateAllHtml rt ?w3 ?vs)) =
           written ?w3 @ map (page_write rt w) (filter (page_ok rt w) ?vs)"
    using list_all_valid_entries v3 same3 noalias nodist by (rule generateAllHtml_written)
  have log3: "written ?w3 = written w @ asset_writes rt w @ [(path_resolve rt ''dist/index.html'', ?page)]"
    using ok v2 by (simp add: written_writeFile written_assets)
  show "fst (main rt w) = None"
    using m generateAllHtml_wf_fst [OF list_all_valid_entries] by simp
  show "written (snd (main rt w)) =
           written w @ asset_writes rt w @ [(path_resolve rt ''dist/index.html'', ?page)]
           @ map (page_write rt w) (filter (page_ok rt w) ?vs)"
    using m pages log3 by simp
qed


lemmas site_texts = site_index_text_def site_a_text_def site_oops_text_def site_nulls_text_def
  site_mixed_text_def
  site_object_text_def

lemma site_resolve_simps [simp]:
  "path_resolve site_rt p = site_resolve p"
  "JSON_parse site_rt = site_parse"
  by (simp_all add: site_rt_def)

lemma site_parse_simps:
  "site_parse site_index_text = Inr site_index"
  "site_parse site_a_text = Inr site_a"
  "site_parse site_oops_text = Inr site_oops"
  "site_parse site_nulls_text = Inr site_nulls"
  "site_parse site_mixed_text = Inr site_mixed"
  "site_parse site_object_text = Inr (site_entry ''a.json'' ''Animals'')"
  by (simp_all add: site_parse_def site_texts)

lemma site_world_simps:
  "files site_world ''data/index.json'' = Some site_index_text"
  "files site_world ''data/a.json'' = Some site_a_text"
  "files site_world ''data/oops.json'' = Some site_oops_text"
  "files site_world ''data/nulls.json'' = Some site_nulls_text"
  "files site_world ''data/gone.json'' = None"
  "access_ok site_world ''data/a.json''"
  "access_ok site_world ''data/oops.json''"
  "access_ok site_world ''data/nulls.json''"
  "\<not> access_ok site_world ''data/gone.json''"
  "mkdir_ok site_world p"
  "write_ok site_world p"
  "written site_world = []"
  by (simp_all add: site_world_def world_of_def)

lemma site_read:
  "readJson site_rt site_world INDEX_PATH = Inr (JArr site_entries)"
  "readJson site_rt site_world (DATA_PATH @ ''a.json'') = Inr site_a"
  "readJson site_rt site_world (DATA_PATH @ ''oops.json'') = Inr site_oops"
  "readJson site_rt site_world (DATA_PATH @ ''nulls.json'') = Inr site_nulls"
  by (simp_all add: readJson_def fs_readFile_def INDEX_PATH_def DATA_PATH_def site_resolve_def
      site_world_simps site_parse_simps site_index_def)

lemma site_entry_simps [simp]:
  "well_formed_entry (site_entry f t) = suffix ''.json'' f"
  "entry_file (site_entry f t) = f"
  "entry_title (site_entry f t) = t"
  by (simp_all add: site_entry_def well_formed_entry_def entry_file_def entry_title_def)

lemma site_suffix:
  "suffix ''.json'' ''a.json''" "suffix ''.json'' ''oops.json''" "suffix ''.json'' ''nulls.json''"
  "suffix ''.json'' ''gone.json''"
  by (simp_all add: endsWith_iff_suffix [symmetric] endsWith_def)

lemma site_file_ok:
  "file_ok site_rt site_world ''a.json''"
  "file_ok site_rt site_world ''oops.json''"
  "file_ok site_rt site_world ''nulls.json''"
  "\<not> file_ok site_rt site_world ''gone.json''"
  by (simp_all add: file_ok_def site_read)
     (simp_all add: DATA_PATH_def site_resolve_def site_world_simps site_a_def site_oops_def
       site_nulls_def)

lemma site_valid_entries:
  "valid_entries site_rt site_world site_entries =
     [site_entry ''a.json'' ''Animals'', site_entry ''oops.json'' ''Oops'',
      site_entry ''nulls.json'' ''Nulls'']"
  by (simp add: valid_entries_def site_entries_def site_suffix site_file_ok)

lemma site_apart: "apart site_rt site_entries"
  by (simp add: apart_def site_entries_def site_suffix outputFilePath_def DATA_PATH_def
      DIST_PATH_def cssFilePath_def jsFilePath_def site_resolve_def)

lemma site_page_of:
  "page_of site_rt site_world (site_entry ''a.json'' ''Animals'') = Some site_a_page"
  "page_of site_rt site_world (site_entry ''oops.json'' ''Oops'') = None"
  "page_of site_rt site_world (site_entry ''nulls.json'' ''Nulls'') = None"
proof -
  have "quizPage site_oops = Inr None"
    by (simp add: site_oops_def quizPage_questions_not_array)
  moreover have "quizPage site_nulls = Inl TypeError"
    by (simp add: site_nulls_def quizPage_def questionsHtml_null_answer
        [of "JObj [(''question'', JStr ''Q''), (''answers'', JArr [JNull])]" _ "[JNull]"])
  ultimately show
    "page_of site_rt site_world (site_entry ''a.json'' ''Animals'') = Some site_a_page"
    "page_of site_rt site_world (site_entry ''oops.json'' ''Oops'') = None"
    "page_of site_rt site_world (site_entry ''nulls.json'' ''Nulls'') = None"
    by (simp_all add: page_of_def site_read site_a_quizPage)
qed

lemma site_pages:
  "map (page_write site_rt site_world)
     (filter (page_ok site_rt site_world) (valid_entries site_rt site_world site_entries))
   = [(''dist/a.html'', site_a_page)]"
  by (simp add: site_valid_entries page_ok_def page_write_def site_page_of site_world_simps
      outputFilePath_def site_resolve_def)

lemma site_asset_writes:
  "asset_writes site_rt site_world =
     [(''dist/styles.css'', cssContent), (''dist/script.js'', jsContent)]"
  by (simp add: asset_writes_def site_world_simps cssFilePath_def jsFilePath_def site_resolve_def)

lemma site_main:
  "fst (main site_rt site_world) = None"
  "written (snd (main site_rt site_world)) =
     [(''dist/styles.css'', cssContent), (''dist/script.js'', jsContent),
      (''dist/index.html'',
       indexHtmlContent (concat (map link_of
         [site_entry ''a.json'' ''Animals'', site_entry ''oops.json'' ''Oops'',
          site_entry ''nulls.json'' ''Nulls'']))),
      (''dist/a.html'', site_a_page)]"
proof -
  have ok: "write_ok site_world (path_resolve site_rt ''dist/index.html'')"
    by (simp add: site_world_simps)
  show "fst (main site_rt site_world) = None"
    using site_read(1) ok site_apart by (rule main_written(1))
  show "written (snd (main site_rt site_world)) =
     [(''dist/styles.css'', cssContent), (''dist/script.js'', jsContent),
      (''dist/index.html'',
       indexHtmlContent (concat (map link_of
         [site_entry ''a.json'' ''Animals'', site_entry ''oops.json'' ''Oops'',
          site_entry ''nulls.json'' ''Nulls'']))),
      (''dist/a.html'', site_a_page)]"
    unfolding main_written(2) [OF site_read(1) ok site_apart] site_pages site_asset_writes
    by (simp add: site_valid_entries site_world_simps site_resolve_def)
qed


lemma fst_page_write [simp]: "fst (page_write rt w e) = path_resolve rt (outputFilePath e)"
  by (simp add: page_write_def)

lemma generateAllHtml_pages:
  assumes "list_all well_formed_entry es"
  shows "\<exists>pages. written (snd (generateAllHtml rt w es)) = written w @ pages
           \<and> length pages \<le> length es
           \<and> fst ` set pages \<subseteq> (\<lambda>e. path_resolve rt (outputFilePath e)) ` set es"
  using assms
proof (induction es arbitrary: w)
  case Nil
  then show ?case by simp
next
  case (Cons e es)
  from Cons.prems have wf: "well_formed_entry e" "list_all well_formed_entry es" by simp_all
  obtain w1 where w1: "generateAllHtml_entry rt w e = (None, w1)"
    using generateAllHtml_entry_wf [OF wf(1)] by blast
  let ?p = "if page_ok rt w e then [page_write rt w e] else []"
  have log1: "written w1 = written w @ ?p"
    using written_entry_wf [OF wf(1), of rt w] w1 by simp
  from Cons.IH [OF wf(2), of w1] obtain pages where
    pages: "written (snd (generateAllHtml rt w1 es)) = written w1 @ pages"
      "length pages \<le> length es"
      "fst ` set pages \<subseteq> (\<lambda>e. path_resolve rt (outputFilePath e)) ` set es"
    by blast
  have "written (snd (generateAllHtml rt w (e # es))) = written w @ (?p @ pages)"
    using w1 log1 pages(1) by simp
  moreover have "length (?p @ pages) \<le> length (e # es)"
    using pages(2) by simp
  moreover have "fst ` set (?p @ pages) \<subseteq> (\<lambda>e. path_resolve rt (outputFilePath e)) ` set (e # es)"
    using pages(3) by auto
  ultimately show ?case by blast
qed

lemma main_written_general:
  assumes idx: "readJson rt w INDEX_PATH = Inr (JArr entries)"
    and ok: "write_ok w (path_resolve rt ''dist/index.html'')"
  shows "fst (main rt w) = None \<and>
         (\<exists>pages. written (snd (main rt w)) =
             written w @ asset_writes rt w
             @ [(path_resolve rt ''dist/index.html'',
                 indexHtmlContent (concat (map link_of (valid_entries rt (after_assets rt w) entries))))]
             @ pages
           \<and> length pages \<le> length (valid_entries rt (after_assets rt w) entries)
           \<and> fst ` set pages \<subseteq> (\<lambda>e. path_resolve rt (outputFilePath e))
                                  ` set (valid_entries rt (after_assets rt w) entries))"
proof -
  let ?w2 = "after_assets rt w"
  let ?vs = "valid_entries rt ?w2 entries"
  let ?page = "indexHtmlContent (concat (map link_of ?vs))"
  let ?w3 = "snd (fs_writeFile rt ?w2 ''dist/index.html'' ?page)"
  have v2: "write_ok ?w2 = write_ok w"
    using evolves_verdicts [OF evolves_assets, of rt w] by (simp add: after_assets_def)
  have wh: "writeHtml rt ?w2 ?vs = (None, ?w3)"
    using ok v2 by (simp add: writeHtml_valid) (simp add: fs_writeFile_def Let_def)
  have m: "main rt w = generateAllHtml rt ?w3 ?vs"
    using idx wh by (simp add: main_array Let_def after_assets_def)
  have log3: "written ?w3 = written w @ asset_writes rt w @ [(path_resolve rt ''dist/index.html'', ?page)]"
    using ok v2 by (simp add: written_writeFile written_assets after_assets_def)
  have "\<exists>pages. written (snd (generateAllHtml rt ?w3 ?vs)) = written ?w3 @ pages
           \<and> length pages \<le> length ?vs
           \<and> fst ` set pages \<subseteq> (\<lambda>e. path_resolve rt (outputFilePath e)) ` set ?vs"
    by (rule generateAllHtml_pages [OF list_all_valid_entries])
  then obtain pages where
    "written (snd (generateAllHtml rt ?w3 ?vs)) = written ?w3 @ pages"
    "length pages \<le> length ?vs"
    "fst ` set pages \<subseteq> (\<lambda>e. path_resolve rt (outputFilePath e)) ` set ?vs"
    by blast
  with m log3 have "written (snd (main rt w)) =
       written w @ asset_writes rt w @ [(path_resolve rt ''dist/index.html'', ?page)] @ pages
     \<and> length pages \<le> length ?vs
     \<and> fst ` set pages \<subseteq> (\<lambda>e. path_resolve rt (outputFilePath e)) ` set ?vs"
    by simp
  moreover have "fst (main rt w) = None"
    using m generateAllHtml_wf_fst [OF list_all_valid_entries] by simp
  ultimately show ?thesis by blast
qed

lemma valid_entries_after_assets:
  assumes ap: "apart rt entries"
  shows "valid_entries rt (after_assets rt w) entries = valid_entries rt w entries"
proof -
  let ?d = "\<lambda>e. path_resolve rt (DATA_PATH @ entry_file e)"
  have ev2: "evolves {path_resolve rt DIST_PATH, path_resolve rt cssFilePath, path_resolve rt jsFilePath}
     w (after_assets rt w)"
    unfolding after_assets_def by (rule evolves_assets)
  have "files (after_assets rt w) (?d e) = files w (?d e)
      \<and> access_ok (after_assets rt w) (?d e) = access_ok w (?d e)"
    if "e \<in> set entries" "well_formed_entry e" for e
  proof -
    have "?d e \<notin> {path_resolve rt DIST_PATH, path_resolve rt cssFilePath, path_resolve rt jsFilePath}"
      using apartD(1,3,4) [OF ap that] by auto
    then show ?thesis
      using ev2 unfolding evolves_def by blast
  qed
  then show ?thesis
    by (intro valid_entries_frame) blast
qed

lemma quiz_pages_apart:
  assumes idx: "readJson rt w INDEX_PATH = Inr (JArr entries)"
    and ok: "write_ok w (path_resolve rt ''dist/index.html'')"
    and ap: "apart rt entries"
  shows "quiz_pages rt w =
           map (page_write rt w) (filter (page_ok rt w) (valid_entries rt w entries))"
  unfolding quiz_pages_def main_written(2) [OF idx ok ap] by simp

lemma site_valid_after_assets:
  "valid_entries site_rt (after_assets site_rt site_world) site_entries =
     [site_entry ''a.json'' ''Animals'', site_entry ''oops.json'' ''Oops'',
      site_entry ''nulls.json'' ''Nulls'']"
  by (simp add: valid_entries_after_assets [OF site_apart] site_valid_entries)

lemma site_twice_page:
  "page_of site_rt site_world_twice (site_entry ''a.json.json'' ''Twice'') = Some site_a_page"
  by (simp add: page_of_def readJson_def fs_readFile_def DATA_PATH_def site_resolve_def
      site_world_twice_def world_of_def site_parse_simps site_a_quizPage)


lemma agree_onD:
  "agree_on ps w1 w2 \<Longrightarrow> p \<in> set ps \<Longrightarrow> files w1 p = files w2 p \<and> access_ok w1 p = access_ok w2 p"
  by (simp add: agree_on_def list_all_iff)

lemma in_step_refl: "agree_on ps w1 w2 \<Longrightarrow> in_step ps w1 w2 w1 w2"
  by (simp add: in_step_def)

lemma in_step_trans:
  assumes "in_step ps w1 w2 a1 a2" "in_step ps a1 a2 b1 b2"
  shows "in_step ps w1 w2 b1 b2"
proof -
  from assms(1) obtain out where out: "written a1 = written w1 @ out" "written a2 = written w2 @ out"
    and f: "\<And>p. p \<in> fst ` set out \<Longrightarrow> files a1 p = files a2 p"
      "\<And>p. p \<notin> fst ` set out \<Longrightarrow> files a1 p = files w1 p \<and> files a2 p = files w2 p"
    unfolding in_step_def by (metis (full_types))
  from assms(2) obtain out' where out': "written b1 = written a1 @ out'" "written b2 = written a2 @ out'"
    and f': "\<And>p. p \<in> fst ` set out' \<Longrightarrow> files b1 p = files b2 p"
      "\<And>p. p \<notin> fst ` set out' \<Longrightarrow> files b1 p = files a1 p \<and> files b2 p = files a2 p"
    unfolding in_step_def by (metis (full_types))
  have "written b1 = written w1 @ (out @ out')" "written b2 = written w2 @ (out @ out')"
    using out out' by simp_all
  moreover have "\<forall>p. if p \<in> fst ` set (out @ out') then files b1 p = files b2 p
             else files b1 p = files w1 p \<and> files b2 p = files w2 p"
  proof
    fix p
    show "if p \<in> fst ` set (out @ out') then files b1 p = files b2 p
             else files b1 p = files w1 p \<and> files b2 p = files w2 p"
    proof (cases "p \<in> fst ` set out'")
      case True
      then show ?thesis using f'(1) by auto
    next
      case False
      note nf = f'(2) [OF False]
      show ?thesis
      proof (cases "p \<in> fst ` set out")
        case True
        then show ?thesis using nf f(1) by auto
      next
        case False
        with \<open>p \<notin> fst ` set out'\<close> have "p \<notin> fst ` set (out @ out')" by auto
        then show ?thesis using nf f(2) [OF False] by simp
      qed
    qed
  qed
  moreover have "agree_on ps b1 b2"
    using assms(2) by (simp add: in_step_def)
  ultimately show ?thesis
    unfolding in_step_def by blast
qed

lemma same_outcome_refl: "agree_on ps w1 w2 \<Longrightarrow> same_outcome ps w1 w2 (r, w1) (r, w2)"
  by (simp add: same_outcome_def in_step_refl)

lemma same_outcome_mkdir:
  assumes "agree_on ps w1 w2"
  shows "same_outcome ps w1 w2 (fs_mkdir rt w1 dir) (fs_mkdir rt w2 dir)"
proof -
  have v: "mkdir_ok w1 = mkdir_ok w2" using assms by (simp add: agree_on_def)
  show ?thesis
  proof (cases "mkdir_ok w2 (path_resolve rt dir)")
    case False
    with v assms show ?thesis
      by (simp add: fs_mkdir_def Let_def same_outcome_refl)
  next
    case True
    with v assms show ?thesis
      by (simp add: fs_mkdir_def Let_def same_outcome_def in_step_def agree_on_def list_all_iff)
  qed
qed

lemma same_outcome_writeFile:
  assumes "agree_on ps w1 w2"
  shows "same_outcome ps w1 w2 (fs_writeFile rt w1 path content) (fs_writeFile rt w2 path content)"
proof -
  have v: "write_ok w1 = write_ok w2" using assms by (simp add: agree_on_def)
  show ?thesis
  proof (cases "write_ok w2 (path_resolve rt path)")
    case False
    with v assms show ?thesis
      by (simp add: fs_writeFile_def Let_def same_outcome_refl)
  next
    case True
    have "in_step ps w1 w2
       (w1\<lparr>files := (files w1)(path_resolve rt path \<mapsto> content),
            access_ok := (access_ok w1)(path_resolve rt path := True),
            written := written w1 @ [(path_resolve rt path, content)]\<rparr>)
       (w2\<lparr>files := (files w2)(path_resolve rt path \<mapsto> content),
            access_ok := (access_ok w2)(path_resolve rt path := True),
            written := written w2 @ [(path_resolve rt path, content)]\<rparr>)"
      unfolding in_step_def
    proof (intro conjI exI [of _ "[(path_resolve rt path, content)]"])
      show "agree_on ps
         (w1\<lparr>files := (files w1)(path_resolve rt path \<mapsto> content),
            access_ok := (access_ok w1)(path_resolve rt path := True),
            written := written w1 @ [(path_resolve rt path, content)]\<rparr>)
         (w2\<lparr>files := (files w2)(path_resolve rt path \<mapsto> content),
            access_ok := (access_ok w2)(path_resolve rt path := True),
            written := written w2 @ [(path_resolve rt path, content)]\<rparr>)"
        using assms by (simp add: agree_on_def list_all_iff)
    qed simp_all
    with True v show ?thesis
      by (simp add: fs_writeFile_def Let_def same_outcome_def)
  qed
qed

lemma same_outcome_then:
  assumes "same_outcome ps w1 w2 (r, a1) (r', a2)"
    and "same_outcome ps a1 a2 o1 o2"
  shows "same_outcome ps w1 w2 o1 o2"
  using assms unfolding same_outcome_def by (auto intro: in_step_trans)

lemma agree_on_readJson:
  "agree_on ps w1 w2 \<Longrightarrow> path_resolve rt p \<in> set ps \<Longrightarrow> readJson rt w1 p = readJson rt w2 p"
  by (rule readJson_frame) (simp add: agree_onD)

lemma agree_on_valid_entries:
  assumes "agree_on ps w1 w2"
    and "\<forall>e\<in>set entries. well_formed_entry e \<longrightarrow>
           path_resolve rt (DATA_PATH @ entry_file e) \<in> set ps"
  shows "valid_entries rt w1 entries = valid_entries rt w2 entries"
  by (rule valid_entries_frame) (use assms in \<open>simp add: agree_onD\<close>)

lemma same_outcome_writeHtml:
  assumes "agree_on ps w1 w2"
  shows "same_outcome ps w1 w2 (writeHtml rt w1 data) (writeHtml rt w2 data)"
  using assms
  by (cases "index_links '''' data")
     (simp_all add: writeHtml_def same_outcome_refl same_outcome_writeFile)

lemma same_outcome_fst: "same_outcome ps w1 w2 o1 o2 \<Longrightarrow> fst o1 = fst o2"
  by (simp add: same_outcome_def)

lemma same_outcome_agree: "same_outcome ps w1 w2 o1 o2 \<Longrightarrow> agree_on ps (snd o1) (snd o2)"
  by (simp add: same_outcome_def in_step_def)

lemma same_outcome_mkdir_write:
  assumes "agree_on ps w1 w2"
  shows "same_outcome ps w1 w2
     (case fs_mkdir rt w1 dir of (Some e, a) \<Rightarrow> (Some e, a)
        | (None, a) \<Rightarrow> fs_writeFile rt a path content)
     (case fs_mkdir rt w2 dir of (Some e, a) \<Rightarrow> (Some e, a)
        | (None, a) \<Rightarrow> fs_writeFile rt a path content)"
proof -
  obtain r1 a1 where m1: "fs_mkdir rt w1 dir = (r1, a1)" by (cases "fs_mkdir rt w1 dir") auto
  obtain r2 a2 where m2: "fs_mkdir rt w2 dir = (r2, a2)" by (cases "fs_mkdir rt w2 dir") auto
  have so: "same_outcome ps w1 w2 (r1, a1) (r2, a2)"
    using same_outcome_mkdir [OF assms, of rt dir] m1 m2 by simp
  then have r: "r1 = r2" and si: "agree_on ps a1 a2"
    using same_outcome_fst same_outcome_agree by fastforce+
  show ?thesis
  proof (cases r2)
    case (Some e)
    with m1 m2 r so show ?thesis by simp
  next
    case None
    have "same_outcome ps a1 a2 (fs_writeFile rt a1 path content) (fs_writeFile rt a2 path content)"
      using si by (rule same_outcome_writeFile)
    with so have "same_outcome ps w1 w2 (fs_writeFile rt a1 path content) (fs_writeFile rt a2 path content)"
      by (rule same_outcome_then)
    with m1 m2 r None show ?thesis by simp
  qed
qed

lemma same_outcome_css:
  assumes "agree_on ps w1 w2"
  shows "in_step ps w1 w2 (generateCssFile rt w1) (generateCssFile rt w2)"
proof -
  have "generateCssFile rt w = snd (case fs_mkdir rt w DIST_PATH of (Some e, a) \<Rightarrow> (Some e, a)
        | (None, a) \<Rightarrow> fs_writeFile rt a cssFilePath cssContent)" for w
    by (simp add: generateCssFile_def split: prod.splits option.splits)
  then show ?thesis
    using same_outcome_mkdir_write [OF assms, where rt = rt and dir = DIST_PATH and path = cssFilePath and content = cssContent]
    by (simp add: same_outcome_def)
qed

lemma same_outcome_js:
  assumes "agree_on ps w1 w2"
  shows "in_step ps w1 w2 (generateJsFile rt w1) (generateJsFile rt w2)"
proof -
  have "generateJsFile rt w = snd (case fs_mkdir rt w DIST_PATH of (Some e, a) \<Rightarrow> (Some e, a)
        | (None, a) \<Rightarrow> fs_writeFile rt a jsFilePath jsContent)" for w
    by (simp add: generateJsFile_def split: prod.splits option.splits)
  then show ?thesis
    using same_outcome_mkdir_write [OF assms, where rt = rt and dir = DIST_PATH and path = jsFilePath and content = jsContent]
    by (simp add: same_outcome_def)
qed

lemma same_outcome_entry:
  assumes ag: "agree_on ps w1 w2"
    and wf: "well_formed_entry e"
    and inp: "path_resolve rt (DATA_PATH @ entry_file e) \<in> set ps"
  shows "same_outcome ps w1 w2 (generateAllHtml_entry rt w1 e) (generateAllHtml_entry rt w2 e)"
proof -
  have v: "mkdir_ok w1 = mkdir_ok w2"
    using ag by (simp add: agree_on_def)
  have pg: "page_of rt w1 e = page_of rt w2 e"
    by (rule page_of_frame) (simp add: agree_onD [OF ag inp])
  show ?thesis
  proof (cases "page_of rt w2 e")
    case None
    with pg ag show ?thesis
      by (simp add: generateAllHtml_entry_wf [OF wf] same_outcome_refl)
  next
    case (Some content)
    show ?thesis
    proof (cases "mkdir_ok w2 (path_resolve rt ''dist'')")
      case False
      with Some pg v ag show ?thesis
        by (simp add: generateAllHtml_entry_wf [OF wf] same_outcome_refl)
    next
      case True
      let ?a1 = "snd (fs_mkdir rt w1 ''dist'')" and ?a2 = "snd (fs_mkdir rt w2 ''dist'')"
      have md: "same_outcome ps w1 w2 (None, ?a1) (None, ?a2)"
        using same_outcome_mkdir [OF ag, of rt "''dist''"] by (simp add: same_outcome_def)
      then have "agree_on ps ?a1 ?a2"
        using same_outcome_agree by fastforce
      then have "same_outcome ps ?a1 ?a2 (fs_writeFile rt ?a1 (outputFilePath e) content)
                  (fs_writeFile rt ?a2 (outputFilePath e) content)"
        by (rule same_outcome_writeFile)
      with md have "same_outcome ps w1 w2 (fs_writeFile rt ?a1 (outputFilePath e) content)
                  (fs_writeFile rt ?a2 (outputFilePath e) content)"
        by (rule same_outcome_then)
      with True Some pg v show ?thesis
        by (simp add: generateAllHtml_entry_wf [OF wf] same_outcome_def)
    qed
  qed
qed

lemma same_outcome_generateAllHtml:
  "agree_on ps w1 w2 \<Longrightarrow> list_all well_formed_entry es \<Longrightarrow>
   \<forall>e\<in>set es. path_resolve rt (DATA_PATH @ entry_file e) \<in> set ps \<Longrightarrow>
   same_outcome ps w1 w2 (generateAllHtml rt w1 es) (generateAllHtml rt w2 es)"
proof (induction es arbitrary: w1 w2)
  case Nil
  then show ?case by (simp add: same_outcome_refl)
next
  case (Cons e es)
  obtain r1 a1 where t1: "generateAllHtml_entry rt w1 e = (r1, a1)"
    by (cases "generateAllHtml_entry rt w1 e") auto
  obtain r2 a2 where t2: "generateAllHtml_entry rt w2 e = (r2, a2)"
    by (cases "generateAllHtml_entry rt w2 e") auto
  have so: "same_outcome ps w1 w2 (r1, a1) (r2, a2)"
    using same_outcome_entry [OF Cons.prems(1), of e rt] Cons.prems(2,3) t1 t2 by simp
  then have r: "r1 = r2" and si: "agree_on ps a1 a2"
    using same_outcome_fst same_outcome_agree by fastforce+
  show ?case
  proof (cases r2)
    case (Some x)
    with t1 t2 r so show ?thesis by simp
  next
    case None
    have "same_outcome ps a1 a2 (generateAllHtml rt a1 es) (generateAllHtml rt a2 es)"
      using si Cons.prems(2,3) by (intro Cons.IH) simp_all
    with so have "same_outcome ps w1 w2 (generateAllHtml rt a1 es) (generateAllHtml rt a2 es)"
      by (rule same_outcome_then)
    with t1 t2 r None show ?thesis by simp
  qed
qed

lemma input_paths_index: "path_resolve rt INDEX_PATH \<in> set (input_paths rt w)"
  by (simp add: input_paths_def)

lemma input_paths_entry:
  assumes "readJson rt w INDEX_PATH = Inr (JArr entries)"
    and "e \<in> set entries" "well_formed_entry e"
  shows "path_resolve rt (DATA_PATH @ entry_file e) \<in> set (input_paths rt w)"
  using assms by (simp add: input_paths_def manifest_entries_def)

lemma same_outcome_main:
  assumes "same_inputs rt w1 w2"
  shows "same_outcome (input_paths rt w1) w1 w2 (main rt w1) (main rt w2)"
proof -
  let ?ps = "input_paths rt w1"
  let ?a1 = "generateJsFile rt (generateCssFile rt w1)"
  let ?a2 = "generateJsFile rt (generateCssFile rt w2)"
  have ag: "agree_on ?ps w1 w2"
    using assms by (simp add: same_inputs_def)
  have c: "in_step ?ps w1 w2 (generateCssFile rt w1) (generateCssFile rt w2)"
    using ag by (rule same_outcome_css)
  then have "agree_on ?ps (generateCssFile rt w1) (generateCssFile rt w2)"
    by (simp add: in_step_def)
  then have "in_step ?ps (generateCssFile rt w1) (generateCssFile rt w2) ?a1 ?a2"
    by (rule same_outcome_js)
  with c have a: "in_step ?ps w1 w2 ?a1 ?a2"
    by (rule in_step_trans)
  then have sa: "agree_on ?ps ?a1 ?a2"
    by (simp add: in_step_def)
  have soa: "same_outcome ?ps w1 w2 (r, ?a1) (r, ?a2)" for r
    using a by (simp add: same_outcome_def)
  have idx: "readJson rt w1 INDEX_PATH = readJson rt w2 INDEX_PATH"
    using ag input_paths_index by (rule agree_on_readJson)
  obtain doc where doc: "readJson rt w2 INDEX_PATH = Inr doc"
    using readJson_total by blast
  show ?thesis
  proof (cases "isArray (Some doc)")
    case False
    then show ?thesis
      using main_not_array [of rt w1 doc] main_not_array [of rt w2 doc] idx doc soa by simp
  next
    case True
    then obtain entries where "doc = JArr entries"
      by (cases doc) simp_all
    with doc idx have i1: "readJson rt w1 INDEX_PATH = Inr (JArr entries)"
      and i2: "readJson rt w2 INDEX_PATH = Inr (JArr entries)"
      by simp_all
    have m: "main rt w1 =
       (case writeHtml rt ?a1 (valid_entries rt ?a1 entries) of
           (Some e, w3) \<Rightarrow> (Some e, w3)
         | (None, w3) \<Rightarrow> generateAllHtml rt w3 (valid_entries rt ?a1 entries))"
      "main rt w2 =
       (case writeHtml rt ?a2 (valid_entries rt ?a2 entries) of
           (Some e, w3) \<Rightarrow> (Some e, w3)
         | (None, w3) \<Rightarrow> generateAllHtml rt w3 (valid_entries rt ?a2 entries))"
      using i1 i2 by (simp_all add: main_array Let_def)
    have inp: "\<forall>e\<in>set entries. well_formed_entry e \<longrightarrow>
           path_resolve rt (DATA_PATH @ entry_file e) \<in> set ?ps"
      using input_paths_entry [OF i1] by blast
    have vs: "valid_entries rt ?a1 entries = valid_entries rt ?a2 entries"
      using sa inp by (rule agree_on_valid_entries)
    let ?vs = "valid_entries rt ?a2 entries"
    have vin: "\<forall>e\<in>set ?vs. path_resolve rt (DATA_PATH @ entry_file e) \<in> set ?ps"
      using inp by (simp add: valid_entries_def)
    obtain r1 b1 where h1: "writeHtml rt ?a1 ?vs = (r1, b1)"
      by (cases "writeHtml rt ?a1 ?vs") auto
    obtain r2 b2 where h2: "writeHtml rt ?a2 ?vs = (r2, b2)"
      by (cases "writeHtml rt ?a2 ?vs") auto
    have "same_outcome ?ps ?a1 ?a2 (r1, b1) (r2, b2)"
      using same_outcome_writeHtml [OF sa, of rt ?vs] h1 h2 by simp
    with soa have so: "same_outcome ?ps w1 w2 (r1, b1) (r2, b2)"
      by (rule same_outcome_then)
    then have r: "r1 = r2" and si: "agree_on ?ps b1 b2"
      using same_outcome_fst same_outcome_agree by fastforce+
    show ?thesis
    proof (cases r2)
      case (Some x)
      with m vs h1 h2 r so show ?thesis by simp
    next
      case None
      have "same_outcome ?ps b1 b2 (generateAllHtml rt b1 ?vs) (generateAllHtml rt b2 ?vs)"
        using si list_all_valid_entries vin by (rule same_outcome_generateAllHtml)
      with so have "same_outcome ?ps w1 w2 (generateAllHtml rt b1 ?vs) (generateAllHtml rt b2 ?vs)"
        by (rule same_outcome_then)
      with m vs h1 h2 r None show ?thesis by simp
    qed
  qed
qed


lemma evolves_main_array:
  assumes idx: "readJson rt w INDEX_PATH = Inr (JArr entries)"
  shows "evolves
     ({path_resolve rt DIST_PATH, path_resolve rt cssFilePath, path_resolve rt jsFilePath,
       path_resolve rt ''dist/index.html'', path_resolve rt ''dist''}
      \<union> (\<lambda>e. path_resolve rt (outputFilePath e)) ` set (filter well_formed_entry entries))
     w (snd (main rt w))"
proof -
  let ?w2 = "generateJsFile rt (generateCssFile rt w)"
  let ?vs = "valid_entries rt ?w2 entries"
  let ?T = "{path_resolve rt DIST_PATH, path_resolve rt cssFilePath, path_resolve rt jsFilePath,
       path_resolve rt ''dist/index.html'', path_resolve rt ''dist''}
      \<union> (\<lambda>e. path_resolve rt (outputFilePath e)) ` set (filter well_formed_entry entries)"
  have sub: "set ?vs \<subseteq> set (filter well_formed_entry entries)"
    by (auto simp: valid_entries_def)
  have e2: "evolves ?T w ?w2"
    by (rule evolves_mono [OF evolves_assets]) auto
  have m: "main rt w =
       (case writeHtml rt ?w2 ?vs of
           (Some e, w3) \<Rightarrow> (Some e, w3)
         | (None, w3) \<Rightarrow> generateAllHtml rt w3 ?vs)"
    using idx by (simp add: main_array Let_def)
  obtain r w3 where w3: "writeHtml rt ?w2 ?vs = (r, w3)"
    by (cases "writeHtml rt ?w2 ?vs") auto
  have "evolves {path_resolve rt ''dist/index.html''} ?w2 w3"
    using evolves_writeHtml [of rt ?w2 ?vs] w3 by simp
  then have "evolves ?T ?w2 w3"
    by (rule evolves_mono) simp
  with e2 have e3: "evolves ?T w w3"
    by (rule evolves_trans)
  show ?thesis
  proof (cases r)
    case (Some e)
    with m w3 have "snd (main rt w) = w3" by simp
    with e3 show ?thesis by simp
  next
    case None
    with m w3 have s: "snd (main rt w) = snd (generateAllHtml rt w3 ?vs)"
      by simp
    have "evolves ?T w3 (snd (generateAllHtml rt w3 ?vs))"
      by (rule evolves_mono [OF evolves_generateAllHtml [OF list_all_valid_entries]])
         (use sub in auto)
    with e3 have "evolves ?T w (snd (generateAllHtml rt w3 ?vs))"
      by (rule evolves_trans)
    with s show ?thesis by simp
  qed
qed

text \<open>A run whose output paths resolve apart from the manifest and from the quiz files
  leaves its inputs as it found them, whatever the resolver.\<close>

lemma second_run_same_inputs:
  assumes idx: "readJson rt w INDEX_PATH = Inr (JArr entries)"
    and ap: "apart rt entries" and ia: "index_apart rt entries"
  shows "same_inputs rt w (snd (main rt w))"
proof -
  let ?T = "{path_resolve rt DIST_PATH, path_resolve rt cssFilePath, path_resolve rt jsFilePath,
       path_resolve rt ''dist/index.html'', path_resolve rt ''dist''}
      \<union> (\<lambda>e. path_resolve rt (outputFilePath e)) ` set (filter well_formed_entry entries)"
  have ev: "evolves ?T w (snd (main rt w))"
    using idx by (rule evolves_main_array)
  have "path_resolve rt INDEX_PATH \<notin> ?T"
    using ia by (auto simp: index_apart_def list_all_iff)
  moreover have "path_resolve rt (DATA_PATH @ entry_file e) \<notin> ?T"
    if "e \<in> set entries" "well_formed_entry e" for e
  proof -
    note d = apartD [OF ap that]
    have "path_resolve rt (DATA_PATH @ entry_file e)
            \<notin> (\<lambda>e. path_resolve rt (outputFilePath e)) ` set (filter well_formed_entry entries)"
      using d(6) by fastforce
    with d(1-5) show ?thesis by simp
  qed
  ultimately have "\<forall>p\<in>set (input_paths rt w). p \<notin> ?T"
    using idx by (auto simp: input_paths_def manifest_entries_def)
  with ev show ?thesis
    unfolding evolves_def same_inputs_def agree_on_def list_all_iff by simp
qed

lemma site_index_apart: "index_apart site_rt site_entries"
  by (simp add: index_apart_def site_entries_def outputFilePath_def INDEX_PATH_def
      DIST_PATH_def cssFilePath_def jsFilePath_def site_resolve_def)

lemma node_resolve_simps:
  "node_resolve ''./data/index.json'' = ''/site/data/index.json''"
  "node_resolve ''./data/a.json'' = ''/site/data/a.json''"
  "node_resolve ''./data/oops.json'' = ''/site/data/oops.json''"
  "node_resolve ''./data/nulls.json'' = ''/site/data/nulls.json''"
  "node_resolve ''./data/gone.json'' = ''/site/data/gone.json''"
  "node_resolve ''./dist'' = ''/site/dist''"
  "node_resolve ''dist'' = ''/site/dist''"
  "node_resolve ''dist/styles.css'' = ''/site/dist/styles.css''"
  "node_resolve ''dist/script.js'' = ''/site/dist/script.js''"
  "node_resolve ''dist/index.html'' = ''/site/dist/index.html''"
  "node_resolve ''dist/a.html'' = ''/site/dist/a.html''"
  "node_resolve ''dist/oops.html'' = ''/site/dist/oops.html''"
  "node_resolve ''dist/nulls.html'' = ''/site/dist/nulls.html''"
  "node_resolve ''dist/gone.html'' = ''/site/dist/gone.html''"
  by (simp_all add: node_resolve_def)

lemma node_read_index: "readJson node_rt node_world INDEX_PATH = Inr (JArr site_entries)"
  by (simp add: readJson_def fs_readFile_def INDEX_PATH_def node_rt_def node_resolve_simps
      node_world_def world_of_def site_parse_simps site_index_def)

lemma node_replace:
  "replace ''.json'' ''.html'' ''a.json'' = ''a.html''"
  "replace ''.json'' ''.html'' ''oops.json'' = ''oops.html''"
  "replace ''.json'' ''.html'' ''nulls.json'' = ''nulls.html''"
  "replace ''.json'' ''.html'' ''gone.json'' = ''gone.html''"
  by simp_all

lemma node_apart: "apart node_rt site_entries"
  by (simp add: apart_def site_entries_def site_suffix outputFilePath_def DATA_PATH_def
      DIST_PATH_def cssFilePath_def jsFilePath_def node_rt_def node_replace node_resolve_simps)

lemma node_index_apart: "index_apart node_rt site_entries"
  by (simp add: index_apart_def site_entries_def site_suffix outputFilePath_def INDEX_PATH_def
      DIST_PATH_def cssFilePath_def jsFilePath_def node_rt_def node_replace node_resolve_simps)

lemma node_world_simps:
  "written node_world = []"
  "write_ok node_world p"
  "files node_world ''/site/dist/a.html'' = Some ''stale''"
  by (simp_all add: node_world_def world_of_def)


text \<open>Where \<^verbatim>\<open>.json\<close> occurs in a name only as its suffix, replacing the first occurrence
  replaces the suffix.\<close>

lemma replace_at_suffix:
  assumes "\<forall>i<length stem. take (length pat) (drop i (stem @ pat)) \<noteq> pat"
  shows "replace pat rep (stem @ pat) = stem @ rep"
  using assms
proof (induction stem)
  case Nil
  show ?case by (cases pat) simp_all
next
  case (Cons c cs)
  from Cons.prems have "take (length pat) (drop 0 ((c # cs) @ pat)) \<noteq> pat"
    by (metis length_greater_0_conv list.distinct(1))
  then have first: "take (length pat) (c # cs @ pat) \<noteq> pat"
    by simp
  have "\<forall>i<length cs. take (length pat) (drop i (cs @ pat)) \<noteq> pat"
  proof (intro allI impI)
    fix i assume "i < length cs"
    then have "Suc i < length (c # cs)" by simp
    with Cons.prems have "take (length pat) (drop (Suc i) ((c # cs) @ pat)) \<noteq> pat"
      by blast
    then show "take (length pat) (drop i (cs @ pat)) \<noteq> pat" by simp
  qed
  then have "replace pat rep (cs @ pat) = cs @ rep"
    by (rule Cons.IH)
  with first show ?case by simp
qed


lemma sublist_concat_member:
  assumes "x \<in> set xs"
  shows "sublist x (pre @ concat xs @ post)"
proof -
  from assms obtain as bs where "xs = as @ x # bs"
    by (meson split_list)
  then have "pre @ concat xs @ post = (pre @ concat as) @ x @ (concat bs @ post)"
    by simp
  then show ?thesis
    unfolding sublist_def by blast
qed

lemma list_all_links:
  "list_all (\<lambda>e. sublist (link_of e) (pre @ concat (map link_of vs) @ post)) vs"
  unfolding list_all_iff
  by (auto intro!: sublist_concat_member)






section \<open>The JSON loader\<close>

text \<open>
  Claim C7. \<^verbatim>\<open>readJson\<close> never throws to its caller, whatever the path, the file system
  and the parser: its outcome is always a returned value. That value is \<^verbatim>\<open>null\<close> when the
  file cannot be read and when its text does not parse, and the parsed value otherwise.
\<close>

theorem readJson_never_throws:
  "(\<forall>e. readJson rt w filePath \<noteq> Inl e)
   \<and> readJson rt w filePath =
       Inr (case fs_readFile w (path_resolve rt filePath) of
              Inl io_error \<Rightarrow> JNull
            | Inr data \<Rightarrow>
                (case JSON_parse rt data of Inl parse_error \<Rightarrow> JNull | Inr parsed \<Rightarrow> parsed))"
  by (simp add: readJson_def split: sum.splits)

section \<open>The index validator\<close>

text \<open>
  Claim C4. \<^verbatim>\<open>parseIndexJson\<close> returns \<^verbatim>\<open>null\<close> when its input is not an array. On an array
  it returns, without throwing, exactly the elements that are non-null objects with a
  string \<^verbatim>\<open>file\<close> ending in \<^verbatim>\<open>.json\<close> and a string \<^verbatim>\<open>title\<close>, in the order of the input.
\<close>

theorem parseIndexJson_filters_in_order:
  "parseIndexJson data =
     Inr (case data of
            JArr entries \<Rightarrow> Some (filter well_formed_entry entries)
          | _ \<Rightarrow> None)"
  by (rule parseIndexJson_eq)

section \<open>Documents the validator accepts and the renderer skips\<close>

text \<open>
  Claim C2. Take a quiz file that exists and loads as an object whose \<^verbatim>\<open>questions\<close> field
  is present, not \<^verbatim>\<open>null\<close> and not an array. \<^verbatim>\<open>isValidJsonFile\<close> returns \<^verbatim>\<open>true\<close> for it,
  the renderer's checks skip the document, and the turn of the loop for an entry naming
  that file leaves the world as it was: no file is written, and the loop goes on with the
  remaining entries.
\<close>

theorem non_array_questions_validated_then_skipped:
  assumes entry_file: "getProp entry ''file'' = Inr (Some (JStr f))"
    and present: "access_ok w (path_resolve rt (DATA_PATH @ f))"
    and doc: "readJson rt w (DATA_PATH @ f) = Inr (JObj kv)"
    and questions: "map_of kv ''questions'' = Some q" "q \<noteq> JNull" "\<not> isArray (Some q)"
  shows "isValidJsonFile rt w (Some (JStr f)) = Inr True
       \<and> quizPage (JObj kv) = Inr None
       \<and> generateAllHtml_entry rt w entry = (None, w)
       \<and> generateAllHtml rt w (entry # rest) = generateAllHtml rt w rest"
proof -
  have valid: "isValidJsonFile rt w (Some (JStr f)) = Inr True"
    using present doc questions by (simp add: isValidJsonFile_string file_ok_def)
  have skip: "quizPage (JObj kv) = Inr None"
    using questions by (simp add: quizPage_questions_not_array)
  have "generateAllHtml_try rt w entry = (None, w)"
    using entry_file doc skip by (rule generateAllHtml_try_skip)
  with entry_file have step: "generateAllHtml_entry rt w entry = (None, w)"
    by (rule generateAllHtml_entry_caught)
  from valid skip step show ?thesis by simp
qed

text \<open>The sample site's \<^verbatim>\<open>oops.json\<close>, whose \<^verbatim>\<open>questions\<close> is a string, meets the
  hypotheses.\<close>

theorem non_array_questions_validated_then_skipped_witness:
  "isValidJsonFile site_rt site_world (Some (JStr ''oops.json'')) = Inr True
   \<and> quizPage site_oops = Inr None
   \<and> generateAllHtml_entry site_rt site_world (site_entry ''oops.json'' ''Oops'') = (None, site_world)
   \<and> generateAllHtml site_rt site_world [site_entry ''oops.json'' ''Oops''] = (None, site_world)"
proof -
  have "isValidJsonFile site_rt site_world (Some (JStr ''oops.json'')) = Inr True
       \<and> quizPage (JObj [(''title'', JStr ''Oops''), (''questions'', JStr ''oops'')]) = Inr None
       \<and> generateAllHtml_entry site_rt site_world (site_entry ''oops.json'' ''Oops'') = (None, site_world)
       \<and> generateAllHtml site_rt site_world (site_entry ''oops.json'' ''Oops'' # []) = generateAllHtml site_rt site_world []"
  proof (rule non_array_questions_validated_then_skipped)
    show "getProp (site_entry ''oops.json'' ''Oops'') ''file'' = Inr (Some (JStr ''oops.json''))"
      by (simp add: site_entry_def)
    show "access_ok site_world (path_resolve site_rt (DATA_PATH @ ''oops.json''))"
      by (simp add: site_world_def world_of_def site_rt_def site_resolve_def DATA_PATH_def)
    show "readJson site_rt site_world (DATA_PATH @ ''oops.json'')
          = Inr (JObj [(''title'', JStr ''Oops''), (''questions'', JStr ''oops'')])"
      using site_read_oops by (simp add: site_oops_def)
    show "map_of [(''title'', JStr ''Oops''), (''questions'', JStr ''oops'')] ''questions'' = Some (JStr ''oops'')"
      by simp
    show "JStr ''oops'' \<noteq> JNull" by simp
    show "\<not> isArray (Some (JStr ''oops''))" by simp
  qed
  then show ?thesis by (simp add: site_oops_def)
qed


section \<open>The page renderer\<close>




text \<open>
  Claim C10. Take an entry whose quiz file loads as an object with an array \<^verbatim>\<open>questions\<close>
  in which some question has an array \<^verbatim>\<open>answers\<close> containing \<^verbatim>\<open>null\<close> (a JSON array
  cannot hold \<^verbatim>\<open>undefined\<close>). The turn of the loop for that entry writes nothing and
  changes nothing, and the loop goes on with the remaining entries. When the document's
  \<^verbatim>\<open>title\<close> is truthy, so that the renderer's checks let it through, the rendering throws a
  \<^verbatim>\<open>TypeError\<close> inside the \<^verbatim>\<open>try\<close> block.
\<close>

theorem null_answer_drops_document:
  assumes entry_file: "getProp entry ''file'' = Inr (Some (JStr f))"
    and doc: "readJson rt w (DATA_PATH @ f) = Inr (JObj kv)"
    and questions: "map_of kv ''questions'' = Some (JArr qs)"
    and q: "q \<in> set qs" "getProp q ''answers'' = Inr (Some (JArr as))" "JNull \<in> set as"
  shows "generateAllHtml_entry rt w entry = (None, w)
       \<and> generateAllHtml rt w (entry # rest) = generateAllHtml rt w rest
       \<and> (truthy (map_of kv ''title'') \<longrightarrow>
            quizPage (JObj kv) = Inl TypeError
          \<and> generateAllHtml_try rt w entry = (Some TypeError, w))"
proof -
  have fail: "questionsHtml qs = Inl TypeError"
    using q by (rule questionsHtml_null_answer)
  have page: "quizPage (JObj kv) = (if truthy (map_of kv ''title'') then Inl TypeError else Inr None)"
    using questions fail
    by (cases "map_of kv ''title''")
       (simp_all add: quizPage_def hasProp_JObj del: hasProp.simps)
  have attempt: "generateAllHtml_try rt w entry =
       (if truthy (map_of kv ''title'') then Some TypeError else None, w)"
    using entry_file doc page by (simp add: generateAllHtml_try_def)
  with entry_file have step: "generateAllHtml_entry rt w entry = (None, w)"
    by (rule generateAllHtml_entry_caught)
  from page attempt step show ?thesis by simp
qed

text \<open>The sample site's \<^verbatim>\<open>nulls.json\<close> has the answers \<^verbatim>\<open>[null]\<close>.\<close>

theorem null_answer_drops_document_witness:
  "generateAllHtml_entry site_rt site_world (site_entry ''nulls.json'' ''Nulls'') = (None, site_world)
   \<and> generateAllHtml site_rt site_world [site_entry ''nulls.json'' ''Nulls'', site_entry ''a.json'' ''Animals'']
       = generateAllHtml site_rt site_world [site_entry ''a.json'' ''Animals'']
   \<and> quizPage site_nulls = Inl TypeError
   \<and> generateAllHtml_try site_rt site_world (site_entry ''nulls.json'' ''Nulls'') = (Some TypeError, site_world)"
proof -
  let ?q = "JObj [(''question'', JStr ''Q''), (''answers'', JArr [JNull])]"
  let ?kv = "[(''title'', JStr ''Nulls''), (''questions'', JArr [?q])]"
  have "getProp (site_entry ''nulls.json'' ''Nulls'') ''file'' = Inr (Some (JStr ''nulls.json''))"
    by (simp add: site_entry_def)
  moreover have "readJson site_rt site_world (DATA_PATH @ ''nulls.json'') = Inr (JObj ?kv)"
    using site_read_nulls by (simp add: site_nulls_def)
  moreover have "map_of ?kv ''questions'' = Some (JArr [?q])" by simp
  moreover have "?q \<in> set [?q]" by simp
  moreover have "getProp ?q ''answers'' = Inr (Some (JArr [JNull]))" by simp
  moreover have "JNull \<in> set [JNull]" by simp
  ultimately have "generateAllHtml_entry site_rt site_world (site_entry ''nulls.json'' ''Nulls'') = (None, site_world)
       \<and> generateAllHtml site_rt site_world (site_entry ''nulls.json'' ''Nulls'' # [site_entry ''a.json'' ''Animals''])
           = generateAllHtml site_rt site_world [site_entry ''a.json'' ''Animals'']
       \<and> (truthy (map_of ?kv ''title'') \<longrightarrow>
            quizPage (JObj ?kv) = Inl TypeError
          \<and> generateAllHtml_try site_rt site_world (site_entry ''nulls.json'' ''Nulls'') = (Some TypeError, site_world))"
    by (rule null_answer_drops_document)
  then show ?thesis by (simp add: site_nulls_def)
qed


section \<open>The orchestrator\<close>

text \<open>
  Claim C6. Whatever the loader returns for the index manifest (a value of any shape, or
  \<^verbatim>\<open>null\<close> when the manifest is missing or does not parse), a run in which the output
  directory can be created and the two asset files can be written writes both of them.
  When the manifest is not an array, the run ends without a throw and these two writes are
  all it writes: no index page and no quiz page.
\<close>

theorem assets_written_whatever_the_index:
  assumes idx: "readJson rt w INDEX_PATH = Inr idx"
    and dist: "mkdir_ok w (path_resolve rt DIST_PATH)"
    and css: "write_ok w (path_resolve rt cssFilePath)"
    and js: "write_ok w (path_resolve rt jsFilePath)"
  shows "(path_resolve rt cssFilePath, cssContent) \<in> set (written (snd (main rt w)))
       \<and> (path_resolve rt jsFilePath, jsContent) \<in> set (written (snd (main rt w)))
       \<and> (\<not> isArray (Some idx) \<longrightarrow>
            fst (main rt w) = None
          \<and> written (snd (main rt w)) =
              written w @ [(path_resolve rt cssFilePath, cssContent),
                           (path_resolve rt jsFilePath, jsContent)])"
proof -
  let ?w2 = "generateJsFile rt (generateCssFile rt w)"
  have assets: "written ?w2 = written w @ [(path_resolve rt cssFilePath, cssContent),
                           (path_resolve rt jsFilePath, jsContent)]"
    using dist css js by (simp add: written_assets asset_writes_def)
  obtain T where "evolves T ?w2 (snd (main rt w))"
    using evolves_main by blast
  then have "set (written ?w2) \<subseteq> set (written (snd (main rt w)))"
    by (rule evolves_written_prefix)
  with assets have emitted:
    "(path_resolve rt cssFilePath, cssContent) \<in> set (written (snd (main rt w)))"
    "(path_resolve rt jsFilePath, jsContent) \<in> set (written (snd (main rt w)))"
    by auto
  have "\<not> isArray (Some idx) \<Longrightarrow> main rt w = (None, ?w2)"
    using idx by (rule main_not_array)
  with assets emitted show ?thesis by simp
qed

text \<open>In the second sample world the manifest is an object.\<close>

theorem assets_written_whatever_the_index_witness:
  "(''dist/styles.css'', cssContent) \<in> set (written (snd (main site_rt site_world_no_array)))
   \<and> (''dist/script.js'', jsContent) \<in> set (written (snd (main site_rt site_world_no_array)))
   \<and> fst (main site_rt site_world_no_array) = None
   \<and> written (snd (main site_rt site_world_no_array)) =
         [(''dist/styles.css'', cssContent), (''dist/script.js'', jsContent)]"
proof -
  have idx: "readJson site_rt site_world_no_array INDEX_PATH = Inr (site_entry ''a.json'' ''Animals'')"
    by (simp add: readJson_def fs_readFile_def INDEX_PATH_def site_resolve_def
        site_world_no_array_def world_of_def site_parse_simps)
  have dist: "mkdir_ok site_world_no_array (path_resolve site_rt DIST_PATH)"
    by (simp add: site_world_no_array_def world_of_def)
  have css: "write_ok site_world_no_array (path_resolve site_rt cssFilePath)"
    by (simp add: site_world_no_array_def world_of_def)
  have js: "write_ok site_world_no_array (path_resolve site_rt jsFilePath)"
    by (simp add: site_world_no_array_def world_of_def)
  have "written site_world_no_array = []"
    by (simp add: site_world_no_array_def world_of_def)
  with assets_written_whatever_the_index [OF idx dist css js] show ?thesis
    by (simp add: site_entry_def cssFilePath_def jsFilePath_def site_resolve_def)
qed

text \<open>
  Claim C9. In a run whose manifest is an array and whose index page can be written, the
  log continues after the assets with the index page. The page is the fixed shell around
  one list item per entry passing both validators (as they run, after the assets are
  written), in order; each of these entries has its link in the page, with the \<^verbatim>\<open>href\<close> and
  the text that \<open>link_of\<close> gives. Every quiz page written after the index page is at the
  output path of one of these entries. The converse fails: there is a run, on the sample
  site, in which an entry passing both validators is linked while no file is written at
  its output path, so the index page can hold a dangling link.
\<close>

theorem valid_entries_linked_pages_may_be_missing:
  assumes idx: "readJson rt w INDEX_PATH = Inr (JArr entries)"
    and ok: "write_ok w (path_resolve rt ''dist/index.html'')"
  shows \<open>(\<exists>page pages.
             written (snd (main rt w)) =
               written w @ asset_writes rt w @ [(path_resolve rt ''dist/index.html'', page)] @ pages
           \<and> page =
''
    <!DOCTYPE html>
    <html lang="en">
        <head>
            <meta charset="UTF-8">
            <meta name="viewport" content="width=device-width, initial-scale=1.0">
            <meta http-equiv="X-UA-Compatible" content="ie=edge">
            <link rel="stylesheet" href="styles.css">
            <title>Verkefni 1</title>
        </head>
        <body>
            <header>Verkefni 1 - Quiz Navigation</header>
            <main>
                <nav>
                    <a href="index.html">Home</a>
                </nav>
                <ul>
                    '' @ concat (map link_of (valid_entries rt (after_assets rt w) entries)) @
''
                </ul>
            </main>
            <script src="script.js"></script>
        </body>
    </html>
    ''
           \<and> list_all (\<lambda>e. sublist (link_of e) page) (valid_entries rt (after_assets rt w) entries)
           \<and> fst ` set pages \<subseteq> (\<lambda>e. path_resolve rt (outputFilePath e))
                                  ` set (valid_entries rt (after_assets rt w) entries))
       \<and> (\<exists>rt' w' entries' e.
             readJson rt' w' INDEX_PATH = Inr (JArr entries')
           \<and> write_ok w' (path_resolve rt' ''dist/index.html'')
           \<and> e \<in> set (valid_entries rt' (after_assets rt' w') entries')
           \<and> path_resolve rt' (outputFilePath e) \<notin> fst ` set (written (snd (main rt' w'))))\<close>
proof
  let ?vs = "valid_entries rt (after_assets rt w) entries"
  from main_written_general [OF idx ok] obtain pages where
    log: "written (snd (main rt w)) =
             written w @ asset_writes rt w
             @ [(path_resolve rt ''dist/index.html'', indexHtmlContent (concat (map link_of ?vs)))]
             @ pages"
    and paths: "fst ` set pages \<subseteq> (\<lambda>e. path_resolve rt (outputFilePath e)) ` set ?vs"
    by blast
  have links: "list_all (\<lambda>e. sublist (link_of e) (indexHtmlContent (concat (map link_of ?vs)))) ?vs"
    unfolding indexHtmlContent_def by (rule list_all_links)
  have shell: \<open>indexHtmlContent (concat (map link_of ?vs)) =
''
    <!DOCTYPE html>
    <html lang="en">
        <head>
            <meta charset="UTF-8">
            <meta name="viewport" content="width=device-width, initial-scale=1.0">
            <meta http-equiv="X-UA-Compatible" content="ie=edge">
            <link rel="stylesheet" href="styles.css">
            <title>Verkefni 1</title>
        </head>
        <body>
            <header>Verkefni 1 - Quiz Navigation</header>
            <main>
                <nav>
                    <a href="index.html">Home</a>
                </nav>
                <ul>
                    '' @ concat (map link_of ?vs) @
''
                </ul>
            </main>
            <script src="script.js"></script>
        </body>
    </html>
    ''\<close>
    by (simp only: indexHtmlContent_def)
  have all: \<open>written (snd (main rt w)) =
               written w @ asset_writes rt w
               @ [(path_resolve rt ''dist/index.html'', indexHtmlContent (concat (map link_of ?vs)))]
               @ pages
           \<and> indexHtmlContent (concat (map link_of ?vs)) =
''
    <!DOCTYPE html>
    <html lang="en">
        <head>
            <meta charset="UTF-8">
            <meta name="viewport" content="width=device-width, initial-scale=1.0">
            <meta http-equiv="X-UA-Compatible" content="ie=edge">
            <link rel="stylesheet" href="styles.css">
            <title>Verkefni 1</title>
        </head>
        <body>
            <header>Verkefni 1 - Quiz Navigation</header>
            <main>
                <nav>
                    <a href="index.html">Home</a>
                </nav>
                <ul>
                    '' @ concat (map link_of ?vs) @
''
                </ul>
            </main>
            <script src="script.js"></script>
        </body>
    </html>
    ''
           \<and> list_all (\<lambda>e. sublist (link_of e) (indexHtmlContent (concat (map link_of ?vs)))) ?vs
           \<and> fst ` set pages \<subseteq> (\<lambda>e. path_resolve rt (outputFilePath e)) ` set ?vs\<close>
    by (intro conjI) (rule log, rule shell, rule links, rule paths)
  show \<open>\<exists>page pages.
             written (snd (main rt w)) =
               written w @ asset_writes rt w @ [(path_resolve rt ''dist/index.html'', page)] @ pages
           \<and> page =
''
    <!DOCTYPE html>
    <html lang="en">
        <head>
            <meta charset="UTF-8">
            <meta name="viewport" content="width=device-width, initial-scale=1.0">
            <meta http-equiv="X-UA-Compatible" content="ie=edge">
            <link rel="stylesheet" href="styles.css">
            <title>Verkefni 1</title>
        </head>
        <body>
            <header>Verkefni 1 - Quiz Navigation</header>
            <main>
                <nav>
                    <a href="index.html">Home</a>
                </nav>
                <ul>
                    '' @ concat (map link_of ?vs) @
''
                </ul>
            </main>
            <script src="script.js"></script>
        </body>
    </html>
    ''
           \<and> list_all (\<lambda>e. sublist (link_of e) page) ?vs
           \<and> fst ` set pages \<subseteq> (\<lambda>e. path_resolve rt (outputFilePath e)) ` set ?vs\<close>
    by (intro exI) (rule all)
next
  let ?e = "site_entry ''oops.json'' ''Oops''"
  have "readJson site_rt site_world INDEX_PATH = Inr (JArr site_entries)"
    by (rule site_read(1))
  moreover have "write_ok site_world (path_resolve site_rt ''dist/index.html'')"
    by (simp add: site_world_simps)
  moreover have "?e \<in> set (valid_entries site_rt (after_assets site_rt site_world) site_entries)"
    by (simp add: site_valid_after_assets)
  moreover have "path_resolve site_rt (outputFilePath ?e)
                   \<notin> fst ` set (written (snd (main site_rt site_world)))"
    by (simp add: site_main(2) outputFilePath_def site_resolve_def)
  ultimately show "\<exists>rt' w' entries' e.
             readJson rt' w' INDEX_PATH = Inr (JArr entries')
           \<and> write_ok w' (path_resolve rt' ''dist/index.html'')
           \<and> e \<in> set (valid_entries rt' (after_assets rt' w') entries')
           \<and> path_resolve rt' (outputFilePath e) \<notin> fst ` set (written (snd (main rt' w')))"
    by blast
qed

text \<open>On the sample site the index page links \<^verbatim>\<open>a.html\<close>, \<^verbatim>\<open>oops.html\<close> and \<^verbatim>\<open>nulls.html\<close>;
  only \<^verbatim>\<open>a.html\<close> is written.\<close>

theorem valid_entries_linked_pages_may_be_missing_witness:
  \<open>written (snd (main site_rt site_world)) =
     [(''dist/styles.css'', cssContent), (''dist/script.js'', jsContent),
      (''dist/index.html'',
       indexHtmlContent (concat (map link_of
         [site_entry ''a.json'' ''Animals'', site_entry ''oops.json'' ''Oops'',
          site_entry ''nulls.json'' ''Nulls'']))),
      (''dist/a.html'', site_a_page)]
   \<and> link_of (site_entry ''oops.json'' ''Oops'') = ''<li><a href="oops.html">Oops</a></li>\<newline>''
   \<and> (\<exists>page pages.
             written (snd (main site_rt site_world)) =
               written site_world @ asset_writes site_rt site_world
               @ [(path_resolve site_rt ''dist/index.html'', page)] @ pages
           \<and> page =
''
    <!DOCTYPE html>
    <html lang="en">
        <head>
            <meta charset="UTF-8">
            <meta name="viewport" content="width=device-width, initial-scale=1.0">
            <meta http-equiv="X-UA-Compatible" content="ie=edge">
            <link rel="stylesheet" href="styles.css">
            <title>Verkefni 1</title>
        </head>
        <body>
            <header>Verkefni 1 - Quiz Navigation</header>
            <main>
                <nav>
                    <a href="index.html">Home</a>
                </nav>
                <ul>
                    '' @ concat (map link_of (valid_entries site_rt (after_assets site_rt site_world) site_entries)) @
''
                </ul>
            </main>
            <script src="script.js"></script>
        </body>
    </html>
    ''
           \<and> list_all (\<lambda>e. sublist (link_of e) page)
                 (valid_entries site_rt (after_assets site_rt site_world) site_entries)
           \<and> fst ` set pages \<subseteq> (\<lambda>e. path_resolve site_rt (outputFilePath e))
                ` set (valid_entries site_rt (after_assets site_rt site_world) site_entries))\<close>
proof (intro conjI)
  have ok: "write_ok site_world (path_resolve site_rt ''dist/index.html'')"
    by (simp add: site_world_simps)
  show "written (snd (main site_rt site_world)) =
     [(''dist/styles.css'', cssContent), (''dist/script.js'', jsContent),
      (''dist/index.html'',
       indexHtmlContent (concat (map link_of
         [site_entry ''a.json'' ''Animals'', site_entry ''oops.json'' ''Oops'',
          site_entry ''nulls.json'' ''Nulls'']))),
      (''dist/a.html'', site_a_page)]"
    by (rule site_main(2))
  show \<open>link_of (site_entry ''oops.json'' ''Oops'') = ''<li><a href="oops.html">Oops</a></li>\<newline>''\<close>
    by (simp add: link_of_def)
  show \<open>\<exists>page pages.
             written (snd (main site_rt site_world)) =
               written site_world @ asset_writes site_rt site_world
               @ [(path_resolve site_rt ''dist/index.html'', page)] @ pages
           \<and> page =
''
    <!DOCTYPE html>
    <html lang="en">
        <head>
            <meta charset="UTF-8">
            <meta name="viewport" content="width=device-width, initial-scale=1.0">
            <meta http-equiv="X-UA-Compatible" content="ie=edge">
            <link rel="stylesheet" href="styles.css">
            <title>Verkefni 1</title>
        </head>
        <body>
            <header>Verkefni 1 - Quiz Navigation</header>
            <main>
                <nav>
                    <a href="index.html">Home</a>
                </nav>
                <ul>
                    '' @ concat (map link_of (valid_entries site_rt (after_assets site_rt site_world) site_entries)) @
''
                </ul>
            </main>
            <script src="script.js"></script>
        </body>
    </html>
    ''
           \<and> list_all (\<lambda>e. sublist (link_of e) page)
                 (valid_entries site_rt (after_assets site_rt site_world) site_entries)
           \<and> fst ` set pages \<subseteq> (\<lambda>e. path_resolve site_rt (outputFilePath e))
                ` set (valid_entries site_rt (after_assets site_rt site_world) site_entries)\<close>
    by (rule conjunct1 [OF valid_entries_linked_pages_may_be_missing [OF site_read(1) ok]])
qed

text \<open>
  Claim C1, as stated, fails: on the sample site three entries pass both validators and
  one quiz page is written, since the renderer skips \<^verbatim>\<open>oops.json\<close> (its \<^verbatim>\<open>questions\<close> is a
  string) and throws on \<^verbatim>\<open>nulls.json\<close> (a \<^verbatim>\<open>null\<close> answer).
\<close>

theorem quiz_pages_fewer_than_valid_entries:
  "length (quiz_pages site_rt site_world) \<noteq> length (valid_entries site_rt site_world site_entries)
   \<and> length (quiz_pages site_rt site_world) = 1
   \<and> length (valid_entries site_rt site_world site_entries) = 3
   \<and> length (valid_entries site_rt (after_assets site_rt site_world) site_entries) = 3"
  by (simp add: quiz_pages_def site_main(2) site_asset_writes site_world_simps
      site_valid_entries site_valid_after_assets)

text \<open>
  Claim C1, amended. Take a run whose manifest is an array, whose index page can be
  written, and in which no path the program writes resolves to a quiz file of the
  manifest. The quiz pages written are the pages of exactly those entries passing both
  validators whose document the renderer accepts and renders without a throw and whose
  output file can be written, in order. Their number is the number of such entries; it is
  at most the number of entries passing both validators.
\<close>

theorem quiz_pages_are_rendered_valid_entries:
  assumes idx: "readJson rt w INDEX_PATH = Inr (JArr entries)"
    and ok: "write_ok w (path_resolve rt ''dist/index.html'')"
    and ap: "apart rt entries"
  shows "quiz_pages rt w =
           map (page_write rt w) (filter (page_ok rt w) (valid_entries rt w entries))
       \<and> length (quiz_pages rt w) = length (filter (page_ok rt w) (valid_entries rt w entries))
       \<and> length (quiz_pages rt w) \<le> length (valid_entries rt w entries)"
  by (simp add: quiz_pages_apart [OF idx ok ap])

text \<open>The sample site: of its three valid entries, one is rendered.\<close>

theorem quiz_pages_are_rendered_valid_entries_witness:
  "quiz_pages site_rt site_world = [(''dist/a.html'', site_a_page)]
   \<and> filter (page_ok site_rt site_world) (valid_entries site_rt site_world site_entries)
       = [site_entry ''a.json'' ''Animals'']
   \<and> length (quiz_pages site_rt site_world) = 1
   \<and> length (valid_entries site_rt site_world site_entries) = 3"
proof -
  have ok: "write_ok site_world (path_resolve site_rt ''dist/index.html'')"
    by (simp add: site_world_simps)
  have "filter (page_ok site_rt site_world) (valid_entries site_rt site_world site_entries)
       = [site_entry ''a.json'' ''Animals'']"
    by (simp add: site_valid_entries page_ok_def site_page_of site_world_simps)
  moreover have "page_write site_rt site_world (site_entry ''a.json'' ''Animals'')
       = (''dist/a.html'', site_a_page)"
    by (simp add: page_write_def site_page_of outputFilePath_def site_resolve_def)
  ultimately show ?thesis
    using quiz_pages_are_rendered_valid_entries [OF site_read(1) ok site_apart] by (simp add: site_valid_entries)
qed

text \<open>
  Claim C3 asks for the \<^verbatim>\<open>.json\<close> suffix of \<^verbatim>\<open>file\<close> to become \<^verbatim>\<open>.html\<close>. The program calls
  \<^verbatim>\<open>replace(".json", ".html")\<close>, which rewrites the first occurrence. For the valid
  entry with \<^verbatim>\<open>file\<close> \<^verbatim>\<open>a.json.json\<close> the link and the output file are named
  \<^verbatim>\<open>a.html.json\<close>, not \<^verbatim>\<open>a.json.html\<close>: the written file does not have the extension
  \<^verbatim>\<open>.html\<close>. (For a name in which \<^verbatim>\<open>.json\<close> occurs only as the suffix the two agree:
  \<open>replace_at_suffix\<close>.)
\<close>

theorem first_json_occurrence_replaced:
  "well_formed_entry (site_entry ''a.json.json'' ''Twice'')
   \<and> file_ok site_rt site_world_twice ''a.json.json''
   \<and> index_link (site_entry ''a.json.json'' ''Twice'') = Inr (index_item ''a.html.json'' ''Twice'')
   \<and> written (snd (generateAllHtml_entry site_rt site_world_twice (site_entry ''a.json.json'' ''Twice'')))
       = [(''dist/a.html.json'', site_a_page)]
   \<and> \<not> endsWith ''a.html.json'' ''.html''"
proof -
  have wf: "well_formed_entry (site_entry ''a.json.json'' ''Twice'')"
    by (simp add: endsWith_iff_suffix [symmetric] endsWith_def)
  have "file_ok site_rt site_world_twice ''a.json.json''"
    by (simp add: file_ok_def readJson_def fs_readFile_def DATA_PATH_def site_resolve_def
        site_world_twice_def world_of_def site_parse_simps site_a_def)
  moreover have "index_link (site_entry ''a.json.json'' ''Twice'') = Inr (index_item ''a.html.json'' ''Twice'')"
    by (simp add: index_link_wf [OF wf] link_of_def index_item_def)
  moreover have "written (snd (generateAllHtml_entry site_rt site_world_twice (site_entry ''a.json.json'' ''Twice'')))
       = [(''dist/a.html.json'', site_a_page)]"
    by (simp add: written_entry_wf [OF wf] page_ok_def page_write_def site_twice_page
        outputFilePath_def site_resolve_def)
       (simp add: site_world_twice_def world_of_def)
  moreover have "\<not> endsWith ''a.html.json'' ''.html''"
    by (simp add: endsWith_def)
  ultimately show ?thesis using wf by simp
qed


section \<open>Determinism\<close>

text \<open>
  Claim C8. Take two runs that start with the same inputs: the index manifest holds the
  same content (or nothing) in both worlds, so does each quiz file that a well-formed
  entry of the manifest names, and the operating system answers \<^verbatim>\<open>mkdir\<close> and \<^verbatim>\<open>writeFile\<close>
  alike. Nothing is asked of any other path: what the output directory already holds,
  what else lies on the disk and what was written before may all differ. The two runs
  end alike, with the same throw or none; they write the same files with the same
  contents in the same order (assets, index page, quiz pages); and every path written
  holds the same bytes afterwards.
\<close>

theorem same_inputs_same_outputs:
  assumes "same_inputs rt w1 w2"
  shows "fst (main rt w1) = fst (main rt w2)
       \<and> (\<exists>out. written (snd (main rt w1)) = written w1 @ out
               \<and> written (snd (main rt w2)) = written w2 @ out
               \<and> list_all (\<lambda>p. files (snd (main rt w1)) p = files (snd (main rt w2)) p)
                    (map fst out))"
proof -
  from same_outcome_main [OF assms] have "fst (main rt w1) = fst (main rt w2)"
    and "in_step (input_paths rt w1) w1 w2 (snd (main rt w1)) (snd (main rt w2))"
    by (simp_all add: same_outcome_def)
  then show ?thesis
    unfolding in_step_def list_all_iff by (metis (no_types, lifting) list.set_map)
qed

text \<open>Running the program twice is one such pair of runs. On the sample site the world
  the first run leaves, with its output directory filled, has the inputs the run
  started with (\<open>second_run_same_inputs\<close>), so the second run writes the files of the
  first again, byte for byte. The same holds under the resolver that makes paths
  absolute and normalises them, started with an output directory that holds a stale
  \<^verbatim>\<open>a.html\<close>.\<close>

theorem same_inputs_same_outputs_witness:
  "same_inputs site_rt site_world (snd (main site_rt site_world))
   \<and> fst (main site_rt (snd (main site_rt site_world))) = fst (main site_rt site_world)
   \<and> written (snd (main site_rt (snd (main site_rt site_world))))
       = written (snd (main site_rt site_world)) @ written (snd (main site_rt site_world))
   \<and> map fst (written (snd (main site_rt site_world)))
       = [''dist/styles.css'', ''dist/script.js'', ''dist/index.html'', ''dist/a.html'']
   \<and> same_inputs node_rt node_world (snd (main node_rt node_world))
   \<and> files node_world ''/site/dist/a.html'' = Some ''stale''
   \<and> written (snd (main node_rt (snd (main node_rt node_world))))
       = written (snd (main node_rt node_world)) @ written (snd (main node_rt node_world))
   \<and> written (snd (main node_rt node_world)) \<noteq> []"
proof -
  let ?w2 = "snd (main site_rt site_world)"
  have si: "same_inputs site_rt site_world ?w2"
    using site_read(1) site_apart site_index_apart by (rule second_run_same_inputs)
  from same_inputs_same_outputs [OF si] obtain out where
    r: "fst (main site_rt site_world) = fst (main site_rt ?w2)"
    and o1: "written ?w2 = written site_world @ out"
    and o2: "written (snd (main site_rt ?w2)) = written ?w2 @ out"
    by blast
  from o1 have out: "out = written ?w2"
    by (simp add: site_world_simps)
  have paths: "map fst (written ?w2)
       = [''dist/styles.css'', ''dist/script.js'', ''dist/index.html'', ''dist/a.html'']"
    by (simp add: site_main(2))
  let ?n2 = "snd (main node_rt node_world)"
  have ni: "same_inputs node_rt node_world ?n2"
    using node_read_index node_apart node_index_apart by (rule second_run_same_inputs)
  from same_inputs_same_outputs [OF ni] obtain nout where
    n1: "written ?n2 = written node_world @ nout"
    and n2: "written (snd (main node_rt ?n2)) = written ?n2 @ nout"
    by blast
  from n1 have nout: "nout = written ?n2"
    by (simp add: node_world_simps)
  have "write_ok node_world (path_resolve node_rt ''dist/index.html'')"
    by (simp add: node_world_simps)
  with node_read_index have "written ?n2 \<noteq> []"
    by (auto dest: main_written_general)
  with si r o2 out paths ni n2 nout show ?thesis
    by (simp add: node_world_simps)
qed



end
